theory Spec2Isabelle
  imports Complex_Main "HOL-Library.Word"
begin

section \<open>JavaScript values read by the client\<close>

text \<open>
  The components are typed \<open>any\<close> at every boundary with the server, so the model keeps
  the run-time values: a response body is whatever JSON the server sent. An object is an
  association list, looked up from the front. \<open>JUndefined\<close> is the value of a missing
  property.
\<close>

datatype jsval =
    JUndefined
  | JNull
  | JBool bool
  | JNum real
  | JStr string
  | JArr "jsval list"
  | JObj "(string \<times> jsval) list"

text \<open>Truthiness, as used by \<open>||\<close>, \<open>&&\<close> and the conditional operator.\<close>

fun truthy :: "jsval \<Rightarrow> bool" where
  "truthy JUndefined = False"
| "truthy JNull = False"
| "truthy (JBool b) = b"
| "truthy (JNum x) = (x \<noteq> 0)"
| "truthy (JStr s) = (s \<noteq> [])"
| "truthy (JArr xs) = True"
| "truthy (JObj kvs) = True"

definition lookup_field :: "(string \<times> jsval) list \<Rightarrow> string \<Rightarrow> jsval" where
  "lookup_field kvs k = (case map_of kvs k of None \<Rightarrow> JUndefined | Some v \<Rightarrow> v)"

text \<open>
  \<open>v.k\<close> for a data field \<open>k\<close>: reading a property of \<open>undefined\<close> or \<open>null\<close> throws a
  TypeError (\<open>None\<close>); a primitive or an array has no such field. The function is only
  applied to the field names of the payloads, never to a built-in such as \<open>length\<close>.
\<close>

fun get_prop :: "jsval \<Rightarrow> string \<Rightarrow> jsval option" where
  "get_prop JUndefined k = None"
| "get_prop JNull k = None"
| "get_prop (JObj kvs) k = Some (lookup_field kvs k)"
| "get_prop v k = Some JUndefined"

text \<open>\<open>v?.k\<close>: \<open>undefined\<close> instead of the TypeError.\<close>

definition opt_prop :: "jsval \<Rightarrow> string \<Rightarrow> jsval" where
  "opt_prop v k = (case get_prop v k of None \<Rightarrow> JUndefined | Some x \<Rightarrow> x)"

text \<open>\<open>a || b\<close>\<close>

definition js_or :: "jsval \<Rightarrow> jsval \<Rightarrow> jsval" where
  "js_or a b = (if truthy a then a else b)"

section \<open>AudioRecorder.tsx: state, requests and suspended calls\<close>

record blob =
  blob_type :: string
  blob_bytes :: "8 word list"

definition blob_size :: "blob \<Rightarrow> nat" where
  "blob_size b = length (blob_bytes b)"

text \<open>\<open>new Blob(parts, { type })\<close> concatenates the parts and takes the given type.\<close>

definition new_Blob :: "blob list \<Rightarrow> string \<Rightarrow> blob" where
  "new_Blob parts ty = \<lparr>blob_type = ty, blob_bytes = concat (map blob_bytes parts)\<rparr>"

text \<open>
  What the component does to the outside, in order: the browser calls (a recorder is
  created with its \<open>mimeType\<close> option and started with a time slice of one second), the
  three HTTP requests (each to its fixed URL on \<open>http://localhost:8000\<close>; the two queries carry
  the task id that is spliced into the URL) and the two callbacks of the parent. A form
  is its list of parts: field name, blob, file name.
\<close>

datatype action =
    GetUserMedia
  | NewMediaRecorder string
  | RecorderStop
  | PostTranscribe "(string \<times> blob \<times> string) list"
  | GetProgress jsval
  | GetResults jsval
  | OnProgressUpdate jsval
  | OnTranscriptionComplete jsval

text \<open>
  An \<open>async\<close> function is suspended at each \<open>await\<close>; what is left of it is kept until
  the promise settles. The interval callback captures \<open>taskId\<close>, the other two capture
  nothing but the shared state.
\<close>

datatype cont =
    AfterGetUserMedia
  | AfterPost
  | AfterProgress jsval
  | AfterResults jsval

datatype settled = Resolved jsval | Rejected jsval

text \<open>
  The \<open>useState\<close> cells and \<open>useRef\<close> cells of the component under their own names,
  and the run-time around them: the intervals that are set, each with the \<open>taskId\<close> its
  callback captured, the suspended calls, a counter for fresh handles, and the actions
  performed so far.
\<close>

record client =
  isRecording :: bool
  isProcessing :: bool
  currentTaskId :: jsval
  error :: jsval
  progressIntervalRef :: "nat option"
  mediaRecorderRef :: "nat option"
  audioChunksRef :: "blob list"
  intervals :: "(nat \<times> jsval) list"
  pending :: "(nat \<times> cont) list"
  next_id :: nat
  out :: "action list"

definition init :: client where
  "init = \<lparr>isRecording = False, isProcessing = False, currentTaskId = JNull, error = JNull,
     progressIntervalRef = None, mediaRecorderRef = None, audioChunksRef = [],
     intervals = [], pending = [], next_id = 0, out = []\<rparr>"

definition suspend :: "cont \<Rightarrow> client \<Rightarrow> client" where
  "suspend k s = s\<lparr>pending := pending s @ [(next_id s, k)], next_id := Suc (next_id s)\<rparr>"

definition emit :: "action \<Rightarrow> client \<Rightarrow> client" where
  "emit a s = s\<lparr>out := out s @ [a]\<rparr>"

subsection \<open>The two buttons\<close>

definition start_disabled :: "client \<Rightarrow> bool" where
  "start_disabled s = (isRecording s \<or> isProcessing s)"

definition stop_disabled :: "client \<Rightarrow> bool" where
  "stop_disabled s = (\<not> isRecording s \<or> isProcessing s)"

subsection \<open>startRecording, stopRecording and the recorder's handlers\<close>

definition startRecording :: "client \<Rightarrow> client" where
  "startRecording s = suspend AfterGetUserMedia (emit GetUserMedia s)"

text \<open>
  After \<open>getUserMedia\<close> resolved. The flag is the answer of
  \<open>MediaRecorder.isTypeSupported('audio/webm;codecs=opus')\<close>.
\<close>

definition startRecording_granted :: "bool \<Rightarrow> client \<Rightarrow> client" where
  "startRecording_granted supported s =
     (emit (NewMediaRecorder (if supported then ''audio/webm;codecs=opus'' else ''''))
        (s\<lparr>mediaRecorderRef := Some (next_id s), audioChunksRef := [],
            next_id := Suc (next_id s)\<rparr>))
     \<lparr>isRecording := True, error := JNull\<rparr>"

definition startRecording_catch :: "client \<Rightarrow> client" where
  "startRecording_catch s =
     s\<lparr>error := JStr ''Failed to access microphone. Please check permissions.''\<rparr>"

definition ondataavailable :: "blob \<Rightarrow> client \<Rightarrow> client" where
  "ondataavailable d s =
     (if blob_size d > 0 then s\<lparr>audioChunksRef := audioChunksRef s @ [d]\<rparr> else s)"

definition stopRecording :: "client \<Rightarrow> client" where
  "stopRecording s =
     (if mediaRecorderRef s \<noteq> None \<and> isRecording s
      then (emit RecorderStop s)\<lparr>isRecording := False\<rparr>
      else s)"

subsection \<open>processAudio\<close>

definition processAudio :: "blob \<Rightarrow> client \<Rightarrow> client" where
  "processAudio audioBlob s =
     suspend AfterPost
       (emit (PostTranscribe [(''file'', audioBlob, ''recording.webm'')])
          (s\<lparr>isProcessing := True, error := JNull\<rparr>))"

definition onstop :: "client \<Rightarrow> client" where
  "onstop s = processAudio (new_Blob (audioChunksRef s) ''audio/webm'') s"

text \<open>
  The \<open>catch\<close> of \<open>processAudio\<close>: \<open>err.response?.data?.detail || '...'\<close>. Reading
  \<open>err.response\<close> of a nullish \<open>err\<close> throws inside the handler, and nothing after it runs.
\<close>

definition processAudio_catch :: "jsval \<Rightarrow> client \<Rightarrow> client" where
  "processAudio_catch err s =
     (case get_prop err ''response'' of
        None \<Rightarrow> s
      | Some r \<Rightarrow>
          s\<lparr>error := js_or (opt_prop (opt_prop r ''data'') ''detail'')
                        (JStr ''Failed to start transcription''),
            isProcessing := False\<rparr>)"

definition pollProgress :: "jsval \<Rightarrow> client \<Rightarrow> client" where
  "pollProgress taskId s =
     s\<lparr>progressIntervalRef := Some (next_id s),
       intervals := intervals s @ [(next_id s, taskId)],
       next_id := Suc (next_id s)\<rparr>"

text \<open>
  The rest of \<open>processAudio\<close> once the POST settled. Destructuring \<open>task_id\<close> out of a
  nullish body throws a TypeError, an error object without \<open>response\<close>.
\<close>

definition processAudio_resume :: "settled \<Rightarrow> client \<Rightarrow> client" where
  "processAudio_resume r s =
     (case r of
        Rejected err \<Rightarrow> processAudio_catch err s
      | Resolved body \<Rightarrow>
          (case get_prop body ''task_id'' of
             None \<Rightarrow> processAudio_catch (JObj []) s
           | Some task_id \<Rightarrow> pollProgress task_id (s\<lparr>currentTaskId := task_id\<rparr>)))"

subsection \<open>pollProgress: the interval callback\<close>

text \<open>\<open>clearInterval(progressIntervalRef.current!)\<close>\<close>

definition clearInterval_ref :: "client \<Rightarrow> client" where
  "clearInterval_ref s =
     s\<lparr>intervals := filter (\<lambda>(i, t). Some i \<noteq> progressIntervalRef s) (intervals s)\<rparr>"

definition poll_catch :: "client \<Rightarrow> client" where
  "poll_catch s =
     (clearInterval_ref s)
       \<lparr>error := JStr ''Failed to get progress'', isProcessing := False,
        currentTaskId := JNull\<rparr>"

text \<open>The callback up to its first \<open>await\<close>.\<close>

definition poll_tick :: "jsval \<Rightarrow> client \<Rightarrow> client" where
  "poll_tick taskId s = suspend (AfterProgress taskId) (emit (GetProgress taskId) s)"

text \<open>From the settled progress request to the next \<open>await\<close> or to the end.\<close>

definition poll_on_progress :: "jsval \<Rightarrow> settled \<Rightarrow> client \<Rightarrow> client" where
  "poll_on_progress taskId r s =
     (case r of
        Rejected err \<Rightarrow> poll_catch s
      | Resolved progress \<Rightarrow>
          (let s1 = emit (OnProgressUpdate progress) s in
           case get_prop progress ''status'' of
             None \<Rightarrow> poll_catch s1
           | Some status \<Rightarrow>
               if status = JStr ''completed''
               then suspend (AfterResults taskId)
                      (emit (GetResults taskId) (clearInterval_ref s1))
               else if status = JStr ''error''
               then (clearInterval_ref s1)
                      \<lparr>error := js_or (opt_prop progress ''current_stage'')
                                  (JStr ''Transcription failed''),
                       isProcessing := False, currentTaskId := JNull\<rparr>
               else s1))"

text \<open>From the settled result request to the end.\<close>

definition poll_on_results :: "jsval \<Rightarrow> settled \<Rightarrow> client \<Rightarrow> client" where
  "poll_on_results taskId r s =
     (case r of
        Rejected err \<Rightarrow> poll_catch s
      | Resolved body \<Rightarrow>
          (emit (OnTranscriptionComplete body) s)
            \<lparr>isProcessing := False, currentTaskId := JNull\<rparr>)"

subsection \<open>The event loop\<close>

text \<open>
  One event is one task of the event loop: a click (a disabled button does nothing), an
  event of the recorder, an interval that fires (only while it is set), or a promise
  that settles and resumes the call waiting for it. The order of the events is the
  environment's choice; nothing in the component waits for a poll to finish before the
  interval fires again.
\<close>

datatype event =
    ClickStart
  | ClickStop
  | MediaGranted nat bool
  | MediaDenied nat
  | DataAvailable blob
  | RecorderStopped
  | TimerFire nat
  | Settle nat settled

definition resume :: "nat \<Rightarrow> client \<Rightarrow> client" where
  "resume k s = s\<lparr>pending := filter (\<lambda>(i, c). i \<noteq> k) (pending s)\<rparr>"

fun step :: "event \<Rightarrow> client \<Rightarrow> client" where
  "step ClickStart s = (if start_disabled s then s else startRecording s)"
| "step ClickStop s = (if stop_disabled s then s else stopRecording s)"
| "step (MediaGranted k supported) s =
     (if map_of (pending s) k = Some AfterGetUserMedia
      then startRecording_granted supported (resume k s) else s)"
| "step (MediaDenied k) s =
     (if map_of (pending s) k = Some AfterGetUserMedia
      then startRecording_catch (resume k s) else s)"
| "step (DataAvailable d) s =
     (if mediaRecorderRef s = None then s else ondataavailable d s)"
| "step RecorderStopped s =
     (if mediaRecorderRef s = None then s else onstop s)"
| "step (TimerFire i) s =
     (case map_of (intervals s) i of None \<Rightarrow> s | Some taskId \<Rightarrow> poll_tick taskId s)"
| "step (Settle k r) s =
     (case map_of (pending s) k of
        Some AfterPost \<Rightarrow> processAudio_resume r (resume k s)
      | Some (AfterProgress taskId) \<Rightarrow> poll_on_progress taskId r (resume k s)
      | Some (AfterResults taskId) \<Rightarrow> poll_on_results taskId r (resume k s)
      | _ \<Rightarrow> s)"

definition run :: "event list \<Rightarrow> client \<Rightarrow> client" where
  "run evs s = fold step evs s"

text \<open>
  The schedule in which every request settles before the interval fires again: a round
  is one tick, the reply to its progress request and the reply to the result request
  it may have made. The handles of the two requests are the fresh ones.
\<close>

definition poll_round :: "nat \<Rightarrow> settled \<times> settled \<Rightarrow> client \<Rightarrow> client" where
  "poll_round i rr s =
     (let s1 = step (TimerFire i) s;
          s2 = step (Settle (next_id s) (fst rr)) s1
      in step (Settle (next_id s1) (snd rr)) s2)"

definition poll_rounds :: "nat \<Rightarrow> (settled \<times> settled) list \<Rightarrow> client \<Rightarrow> client" where
  "poll_rounds i rrs s = fold (poll_round i) rrs s"

text \<open>The interval held in \<open>progressIntervalRef\<close> is still set.\<close>

definition polling :: "client \<Rightarrow> bool" where
  "polling s =
     (case progressIntervalRef s of None \<Rightarrow> False
      | Some i \<Rightarrow> map_of (intervals s) i \<noteq> None)"

text \<open>The task ids of the queries among a list of actions.\<close>

fun query_ids :: "action list \<Rightarrow> jsval list" where
  "query_ids [] = []"
| "query_ids (GetProgress t # as) = t # query_ids as"
| "query_ids (GetResults t # as) = t # query_ids as"
| "query_ids (a # as) = query_ids as"

fun result_queries :: "action list \<Rightarrow> jsval list" where
  "result_queries [] = []"
| "result_queries (GetResults t # as) = t # result_queries as"
| "result_queries (a # as) = result_queries as"

fun posted_forms :: "action list \<Rightarrow> (string \<times> blob \<times> string) list list" where
  "posted_forms [] = []"
| "posted_forms (PostTranscribe f # as) = f # posted_forms as"
| "posted_forms (a # as) = posted_forms as"

text \<open>
  The \<open>task_id\<close> of every body with which a POST of \<open>processAudio\<close> resolved during a
  run: the ids the server returned to this client.
\<close>

fun returned_ids :: "event list \<Rightarrow> client \<Rightarrow> jsval list" where
  "returned_ids [] s = []"
| "returned_ids (Settle k (Resolved body) # evs) s =
     (if map_of (pending s) k = Some AfterPost
      then (case get_prop body ''task_id'' of None \<Rightarrow> [] | Some t \<Rightarrow> [t])
      else [])
     @ returned_ids evs (step (Settle k (Resolved body)) s)"
| "returned_ids (e # evs) s = returned_ids evs (step e s)"

text \<open>The chunks the recorder handed over during a run.\<close>

fun delivered :: "event list \<Rightarrow> blob list" where
  "delivered [] = []"
| "delivered (DataAvailable d # evs) = d # delivered evs"
| "delivered (e # evs) = delivered evs"

text \<open>
  A reply to a progress request after which the callback leaves the interval set: the
  request resolved, the body has a readable \<open>status\<close>, and the status is neither
  \<open>'completed'\<close> nor \<open>'error'\<close>.
\<close>

fun keeps_polling :: "settled \<Rightarrow> bool" where
  "keeps_polling (Rejected err) = False"
| "keeps_polling (Resolved p) =
     (case get_prop p ''status'' of None \<Rightarrow> False
      | Some st \<Rightarrow> st \<noteq> JStr ''completed'' \<and> st \<noteq> JStr ''error'')"

fun observes_completed :: "settled \<Rightarrow> bool" where
  "observes_completed (Rejected err) = False"
| "observes_completed (Resolved p) = (get_prop p ''status'' = Some (JStr ''completed''))"

text \<open>The replies with which progress requests settled during a run, in order.\<close>

fun progress_replies :: "event list \<Rightarrow> client \<Rightarrow> settled list" where
  "progress_replies [] s = []"
| "progress_replies (Settle k r # evs) s =
     (case map_of (pending s) k of Some (AfterProgress t) \<Rightarrow> [r] | _ \<Rightarrow> [])
     @ progress_replies evs (step (Settle k r) s)"
| "progress_replies (e # evs) s = progress_replies evs (step e s)"

text \<open>The suspended calls, without their handles.\<close>

definition conts :: "client \<Rightarrow> cont set" where
  "conts s = snd ` set (pending s)"

definition no_post_pending :: "client \<Rightarrow> bool" where
  "no_post_pending s = (AfterPost \<notin> conts s)"

definition results_pending :: "client \<Rightarrow> bool" where
  "results_pending s = (\<exists>t. AfterResults t \<in> conts s)"

text \<open>
  The uploads started during a run: the recorder stopped while the component held a
  recorder, and \<open>onstop\<close> posted the recording.
\<close>

fun uploads :: "event list \<Rightarrow> client \<Rightarrow> nat" where
  "uploads [] s = 0"
| "uploads (RecorderStopped # evs) s =
     (if mediaRecorderRef s = None then 0 else 1) + uploads evs (step RecorderStopped s)"
| "uploads (e # evs) s = uploads evs (step e s)"

text \<open>
  The client at rest: no interval is set, and no upload, poll or result query is in
  flight (a call of \<open>getUserMedia\<close> may be).
\<close>

definition quiet :: "client \<Rightarrow> bool" where
  "quiet s = (intervals s = [] \<and> conts s \<subseteq> {AfterGetUserMedia})"

text \<open>Every interval that is set is the one held in \<open>progressIntervalRef\<close>.\<close>

definition solo :: "client \<Rightarrow> bool" where
  "solo s = (\<forall>(j, t)\<in>set (intervals s). progressIntervalRef s = Some j)"

text \<open>The uploads in flight.\<close>

definition posts :: "client \<Rightarrow> nat" where
  "posts s = length (filter (\<lambda>(k, c). c = AfterPost) (pending s))"

text \<open>
  Between two rounds of the schedule above: one interval is set, for task \<open>t\<close>, and
  no call is suspended; or no interval is set and no call is suspended.
\<close>

definition idle :: "nat \<Rightarrow> jsval \<Rightarrow> client \<Rightarrow> bool" where
  "idle i t s = (progressIntervalRef s = Some i \<and> intervals s = [(i, t)] \<and> pending s = [])"

definition stopped :: "client \<Rightarrow> bool" where
  "stopped s = (intervals s = [] \<and> pending s = [])"

text \<open>
  Invariants of a run. Every chunk kept and every form posted comes from delivered
  chunks of positive size; every task id held by an interval or a suspended poll, and
  every id queried after the first \<open>n\<close> actions, is among the ids \<open>T\<close>.
\<close>

definition from_chunks :: "blob set \<Rightarrow> (string \<times> blob \<times> string) list \<Rightarrow> bool" where
  "from_chunks D f =
     (\<exists>cs. f = [(''file'', new_Blob cs ''audio/webm'', ''recording.webm'')] \<and>
           (\<forall>c\<in>set cs. c \<in> D \<and> 0 < blob_size c))"

definition chunks_ok :: "blob set \<Rightarrow> client \<Rightarrow> bool" where
  "chunks_ok D s =
     ((\<forall>c\<in>set (audioChunksRef s). c \<in> D \<and> 0 < blob_size c) \<and>
      (\<forall>f\<in>set (posted_forms (out s)). from_chunks D f))"

definition ids_ok :: "nat \<Rightarrow> jsval set \<Rightarrow> client \<Rightarrow> bool" where
  "ids_ok n T s =
     (snd ` set (intervals s) \<subseteq> T \<and>
      (\<forall>t. AfterProgress t \<in> conts s \<longrightarrow> t \<in> T) \<and>
      (\<forall>t. AfterResults t \<in> conts s \<longrightarrow> t \<in> T) \<and>
      set (query_ids (drop n (out s))) \<subseteq> T)"

text \<open>An upload in flight has been posted.\<close>

definition posted_ok :: "client \<Rightarrow> bool" where
  "posted_ok s = (AfterPost \<in> conts s \<longrightarrow> posted_forms (out s) \<noteq> [])"

text \<open>
  The actions one event adds and the handles it allocates.
\<close>

definition new_out :: "event \<Rightarrow> client \<Rightarrow> action list" where
  "new_out e s = drop (length (out s)) (out (step e s))"

definition new_handles :: "event \<Rightarrow> client \<Rightarrow> nat list" where
  "new_handles e s = [next_id s ..< next_id (step e s)]"

text \<open>
  The queries of one polling job, the interval \<open>i\<close> set by one call of \<open>pollProgress\<close>.
  The events of the job are the ticks of its interval and the settling of the requests
  its callbacks made: \<open>K\<close> holds the handles of those requests, and grows by the handles
  each event of the job allocates.
\<close>

fun job_event :: "nat \<Rightarrow> nat list \<Rightarrow> event \<Rightarrow> bool" where
  "job_event i K (TimerFire j) = (j = i)"
| "job_event i K (Settle k r) = (k \<in> set K)"
| "job_event i K e = False"

fun job_queries :: "nat \<Rightarrow> nat list \<Rightarrow> event list \<Rightarrow> client \<Rightarrow> jsval list" where
  "job_queries i K [] s = []"
| "job_queries i K (e # evs) s =
     (if job_event i K e
      then query_ids (new_out e s) @ job_queries i (K @ new_handles e s) evs (step e s)
      else job_queries i K evs (step e s))"

text \<open>
  Invariants of a run, for the job of interval \<open>i\<close> and task \<open>t\<close>. Every handle in use
  is below the counter from which the next one is taken; and the interval of the job,
  while it is set, and the requests of the job, while they are in flight, hold \<open>t\<close>.
\<close>

definition fresh :: "client \<Rightarrow> bool" where
  "fresh s = ((\<forall>k\<in>fst ` set (pending s). k < next_id s) \<and>
              (\<forall>j\<in>fst ` set (intervals s). j < next_id s))"

definition job_inv :: "nat \<Rightarrow> jsval \<Rightarrow> nat list \<Rightarrow> client \<Rightarrow> bool" where
  "job_inv i t K s =
     ((map_of (intervals s) i = None \<or> map_of (intervals s) i = Some t) \<and>
      (\<forall>k\<in>set K. map_of (pending s) k = None \<or>
                  map_of (pending s) k = Some (AfterProgress t) \<or>
                  map_of (pending s) k = Some (AfterResults t)) \<and>
      i < next_id s \<and> (\<forall>k\<in>set K. k < next_id s))"

subsection \<open>Concrete runs\<close>

text \<open>
  One recording of one chunk, stopped and uploaded; the server answers with task
  \<open>t1\<close>. The handles are 0 for \<open>getUserMedia\<close>, 1 for the recorder, 2 for the POST
  and 3 for the interval.
\<close>

definition chunk1 :: blob where
  "chunk1 = \<lparr>blob_type = ''audio/webm;codecs=opus'', blob_bytes = [26, 69, 223, 163]\<rparr>"

definition submit_t1 :: "event list" where
  "submit_t1 =
     [ClickStart, MediaGranted 0 True, DataAvailable chunk1, ClickStop, RecorderStopped,
      Settle 2 (Resolved (JObj [(''task_id'', JStr ''t1'')]))]"

definition running_progress :: jsval where
  "running_progress =
     JObj [(''status'', JStr ''processing''), (''current_stage'', JStr ''transcribing''),
           (''overall_progress'', JNum 60)]"

definition completed_progress :: jsval where
  "completed_progress =
     JObj [(''status'', JStr ''completed''), (''current_stage'', JStr ''completed''),
           (''overall_progress'', JNum 100)]"

definition error_progress :: jsval where
  "error_progress =
     JObj [(''status'', JStr ''error''), (''current_stage'', JStr ''Error: no speech''),
           (''overall_progress'', JNum 60)]"

text \<open>A progress body with the status and the error field of the specification.\<close>

definition failed_progress :: jsval where
  "failed_progress =
     JObj [(''status'', JStr ''failed''), (''current_stage'', JStr ''transcribing''),
           (''overall_progress'', JNum 60), (''error_detail'', JStr ''recognition failed'')]"

definition network_error :: jsval where
  "network_error = JObj [(''message'', JStr ''Network Error'')]"

text \<open>
  The interval fires twice before the first of the two progress requests settles
  (handles 4 and 5).
\<close>

definition two_polls_in_flight :: "event list" where
  "two_polls_in_flight = submit_t1 @ [TimerFire 3, TimerFire 3]"

text \<open>
  With two polls of \<open>t1\<close> in flight, the first is rejected. The user records again
  (handles 6 and 7) and the upload starts (handle 8). Then the second poll of \<open>t1\<close>
  resolves with status \<open>'error'\<close>, and after it the upload resolves with task \<open>t2\<close>
  (interval 9).
\<close>

definition stale_poll_run :: "event list" where
  "stale_poll_run =
     two_polls_in_flight @
     [Settle 4 (Rejected network_error),
      ClickStart, MediaGranted 6 True, DataAvailable chunk1, ClickStop, RecorderStopped,
      Settle 5 (Resolved error_progress),
      Settle 8 (Resolved (JObj [(''task_id'', JStr ''t2'')]))]"

text \<open>
  A third recording and upload (handles 10, 11 and 12; task \<open>t3\<close>, interval 13), and
  both intervals fire.
\<close>

definition next_submission :: "event list" where
  "next_submission =
     [ClickStart, MediaGranted 10 True, DataAvailable chunk1, ClickStop, RecorderStopped,
      Settle 12 (Resolved (JObj [(''task_id'', JStr ''t3'')])),
      TimerFire 9, TimerFire 13]"

text \<open>
  With two polls of \<open>t1\<close> in flight, the first resolves with status \<open>'error'\<close> and the
  second with \<open>'completed'\<close>, which starts the result query of \<open>t1\<close> (handle 6). The
  user records again (handles 7 and 8) and the upload (handle 9) resolves with task
  \<open>t2\<close> (interval 10) while that result query is still in flight.
\<close>

definition stale_result_run :: "event list" where
  "stale_result_run =
     two_polls_in_flight @
     [Settle 4 (Resolved error_progress), Settle 5 (Resolved completed_progress),
      ClickStart, MediaGranted 7 True, DataAvailable chunk1, ClickStop, RecorderStopped,
      Settle 9 (Resolved (JObj [(''task_id'', JStr ''t2'')]))]"



text \<open>
  After the run with the stale poll, in which the interval of \<open>t2\<close> is set, the third
  recording is uploaded (handles 10, 11 and 12). Once the upload is answered (interval
  13), both intervals fire (handles 14 and 15) and the two requests settle.
\<close>

definition second_upload :: "event list" where
  "second_upload =
     stale_poll_run @
     [ClickStart, MediaGranted 10 True, DataAvailable chunk1, ClickStop, RecorderStopped]"

definition both_jobs_poll :: "event list" where
  "both_jobs_poll =
     [TimerFire 9, TimerFire 13, Settle 14 (Resolved running_progress),
      Settle 15 (Resolved completed_progress)]"

section \<open>The parent page (\<open>Home\<close>) and TranscriptionResult.tsx\<close>

text \<open>
  \<open>Home\<close> keeps the last body handed to each callback and renders it. A view is the
  data a render puts on the page; the markup and the styling are left out. Where the
  source formats a number or a time, the view keeps the value and names the format.
\<close>

record home =
  transcriptionResult :: jsval
  progress :: jsval

definition home_init :: home where
  "home_init = \<lparr>transcriptionResult = JNull, progress = JNull\<rparr>"

definition handleTranscriptionComplete :: "jsval \<Rightarrow> home \<Rightarrow> home" where
  "handleTranscriptionComplete r h = h\<lparr>transcriptionResult := r\<rparr>"

definition handleProgressUpdate :: "jsval \<Rightarrow> home \<Rightarrow> home" where
  "handleProgressUpdate progressData h = h\<lparr>progress := progressData\<rparr>"

text \<open>\<open>s.replace(a, b)\<close> with string arguments replaces the first occurrence only.\<close>

fun replace_first :: "char \<Rightarrow> char \<Rightarrow> string \<Rightarrow> string" where
  "replace_first a b [] = []"
| "replace_first a b (c # cs) = (if c = a then b # cs else c # replace_first a b cs)"

text \<open>\<open>toUpperCase\<close> on the letters a to z; the strings of the model are 8-bit.\<close>

definition upper_char :: "char \<Rightarrow> char" where
  "upper_char c =
     (case map_of (zip ''abcdefghijklmnopqrstuvwxyz'' ''ABCDEFGHIJKLMNOPQRSTUVWXYZ'') c of
        None \<Rightarrow> c
      | Some u \<Rightarrow> u)"

definition toUpperCase :: "string \<Rightarrow> string" where
  "toUpperCase s = map upper_char s"

text \<open>
  \<open>{v}\<close> as a child of an element: React puts a string or a number on the page, nothing
  for a boolean, \<open>null\<close> or \<open>undefined\<close>, the elements of an array one after the other,
  and throws for any other object (objects are not valid as a child).
\<close>

fun renderable :: "jsval \<Rightarrow> bool" where
  "renderable (JObj kvs) = False"
| "renderable (JArr xs) = list_all renderable xs"
| "renderable v = True"

datatype icon = CheckIcon | CrossIcon | SpinnerIcon

text \<open>
  One row of the stage list: the icon chosen by \<open>stage.stage\<close>, the title
  \<open>stage.stage.replace('_', ' ')\<close>, the message as a child, and the value given to
  \<open>new Date(...)\<close> for the time. \<open>None\<close> is an error thrown while rendering.
\<close>

record stage_row =
  row_icon :: icon
  row_title :: string
  row_message :: jsval
  row_time :: jsval

definition render_stage :: "jsval \<Rightarrow> stage_row option" where
  "render_stage stage =
     (case get_prop stage ''stage'' of
        None \<Rightarrow> None
      | Some n \<Rightarrow>
          (case n of
             JStr name \<Rightarrow>
               if renderable (opt_prop stage ''message'')
               then Some \<lparr>row_icon = (if n = JStr ''completed'' then CheckIcon
                                      else if n = JStr ''error'' then CrossIcon
                                      else SpinnerIcon),
                          row_title = replace_first (CHR ''_'') (CHR '' '') name,
                          row_message = opt_prop stage ''message'',
                          row_time = opt_prop stage ''timestamp''\<rparr>
               else None
           | _ \<Rightarrow> None))"

text \<open>\<open>progress.stages && progress.stages.map(...)\<close>: only an array has \<open>map\<close>.\<close>

definition render_stages :: "jsval \<Rightarrow> stage_row list option" where
  "render_stages stages =
     (if truthy stages
      then (case stages of JArr xs \<Rightarrow> those (map render_stage xs) | _ \<Rightarrow> None)
      else Some [])"

text \<open>\<open>progress.current_stage?.replace('_', ' ').toUpperCase()\<close>\<close>

definition render_current_stage :: "jsval \<Rightarrow> string option option" where
  "render_current_stage cs =
     (case cs of
        JUndefined \<Rightarrow> Some None
      | JNull \<Rightarrow> Some None
      | JStr name \<Rightarrow> Some (Some (toUpperCase (replace_first (CHR ''_'') (CHR '' '') name)))
      | _ \<Rightarrow> None)"

record progress_view =
  pv_percent :: jsval
  pv_label :: "string option"
  pv_rows :: "stage_row list"

datatype 'a rendered = Hidden | Throws | Shows 'a

text \<open>
  The progress panel of \<open>Home\<close>, under \<open>progress && (...)\<close>; the percentage is a
  child.
\<close>

definition render_progress :: "jsval \<Rightarrow> progress_view rendered" where
  "render_progress p =
     (if \<not> truthy p then Hidden
      else if \<not> renderable (opt_prop p ''overall_progress'') then Throws
      else case render_current_stage (opt_prop p ''current_stage'') of
             None \<Rightarrow> Throws
           | Some label \<Rightarrow>
               (case render_stages (opt_prop p ''stages'') of
                  None \<Rightarrow> Throws
                | Some rows \<Rightarrow>
                    Shows \<lparr>pv_percent = opt_prop p ''overall_progress'',
                           pv_label = label, pv_rows = rows\<rparr>))"

text \<open>
  The texts of TranscriptionResult: a literal, a value put on the page as a child,
  \<open>(v * 100).toFixed(1)\<close> followed by a percent sign, and \<open>x.toFixed(n)\<close> followed by
  \<open>s\<close>.
\<close>

datatype shown = Lit string | Val jsval | Percent1 jsval | FixedS nat real

datatype chips = NoneIdentified | Chips "jsval list"

text \<open>\<open>{v}\<close>: the value as a child, or the error React throws for an object.\<close>

definition as_child :: "jsval \<Rightarrow> shown option" where
  "as_child v = (if renderable v then Some (Val v) else None)"

text \<open>\<open>v ? `${(v * 100).toFixed(1)}%` : 'N/A'\<close>\<close>

definition show_percent :: "jsval \<Rightarrow> shown" where
  "show_percent v = (if truthy v then Percent1 v else Lit ''N/A'')"

text \<open>\<open>v ? `${v.toFixed(n)}s` : 'N/A'\<close>: only a number has \<open>toFixed\<close>.\<close>

definition show_seconds :: "nat \<Rightarrow> jsval \<Rightarrow> shown option" where
  "show_seconds n v =
     (if truthy v then (case v of JNum x \<Rightarrow> Some (FixedS n x) | _ \<Rightarrow> None)
      else Some (Lit ''N/A''))"

text \<open>
  \<open>v && v.length > 0 ? v.map(...) : ...\<close>, each element of the array being put on the
  page as a child. A non-empty string has a positive length and no \<open>map\<close>; a number
  or \<open>true\<close> has no \<open>length\<close>. An object has the \<open>length\<close> of its field of that name,
  compared as a number when it is absent, \<open>null\<close>, a boolean or a number; a \<open>length\<close>
  field that is a string, an array or an object is outside the model and is given the
  TypeError of a positive length.
\<close>

definition show_entities :: "jsval \<Rightarrow> chips option" where
  "show_entities v =
     (if \<not> truthy v then Some NoneIdentified
      else case v of
             JArr xs \<Rightarrow>
               if length xs > 0
               then (if list_all renderable xs then Some (Chips xs) else None)
               else Some NoneIdentified
           | JStr s \<Rightarrow> None
           | JObj kvs \<Rightarrow>
               (case lookup_field kvs ''length'' of
                  JUndefined \<Rightarrow> Some NoneIdentified
                | JNull \<Rightarrow> Some NoneIdentified
                | JBool b \<Rightarrow> if b then None else Some NoneIdentified
                | JNum x \<Rightarrow> if x > 0 then None else Some NoneIdentified
                | _ \<Rightarrow> None)
           | _ \<Rightarrow> Some NoneIdentified)"

datatype tab = TranscriptTab | EntitiesTab | SecurityTab

datatype tab_body =
    TranscriptBody shown shown shown
  | EntitiesBody chips chips
  | SecurityBody

record result_view =
  rv_body :: tab_body
  rv_task_id :: shown
  rv_processing_time :: shown

text \<open>The body under the active tab: transcript, confidence and duration, or the entities.\<close>

definition render_tab :: "tab \<Rightarrow> jsval \<Rightarrow> tab_body option" where
  "render_tab t result =
     (case t of
        TranscriptTab \<Rightarrow>
          (case as_child (js_or (opt_prop result ''transcript'')
                                (JStr ''No transcript available'')) of
             None \<Rightarrow> None
           | Some tr \<Rightarrow>
               (case show_seconds 1 (opt_prop result ''duration'') of
                  None \<Rightarrow> None
                | Some d \<Rightarrow>
                    Some (TranscriptBody tr (show_percent (opt_prop result ''confidence'')) d)))
      | EntitiesTab \<Rightarrow>
          (case show_entities (opt_prop result ''diagnoses'') of
             None \<Rightarrow> None
           | Some ds \<Rightarrow>
               (case show_entities (opt_prop result ''treatments'') of
                  None \<Rightarrow> None
                | Some ts \<Rightarrow> Some (EntitiesBody ds ts)))
      | SecurityTab \<Rightarrow> Some SecurityBody)"

text \<open>
  TranscriptionResult for a given active tab, with the footer. Reading a field of a
  nullish \<open>result\<close> throws, and so does a transcript or a task id that is an object.
\<close>

definition render_result :: "tab \<Rightarrow> jsval \<Rightarrow> result_view option" where
  "render_result t result =
     (case get_prop result ''task_id'' of
        None \<Rightarrow> None
      | Some _ \<Rightarrow>
          (case render_tab t result of
             None \<Rightarrow> None
           | Some body \<Rightarrow>
               (case as_child (js_or (opt_prop result ''task_id'') (JStr ''N/A'')) of
                  None \<Rightarrow> None
                | Some tid \<Rightarrow>
                    (case show_seconds 2 (opt_prop result ''processing_time'') of
                       None \<Rightarrow> None
                     | Some pt \<Rightarrow>
                         Some \<lparr>rv_body = body, rv_task_id = tid,
                               rv_processing_time = pt\<rparr>))))"

text \<open>The results section of \<open>Home\<close>, under \<open>transcriptionResult && (...)\<close>.\<close>

definition render_results_section :: "tab \<Rightarrow> jsval \<Rightarrow> result_view rendered" where
  "render_results_section t r =
     (if \<not> truthy r then Hidden
      else case render_result t r of None \<Rightarrow> Throws | Some v \<Rightarrow> Shows v)"

subsection \<open>Concrete bodies\<close>

text \<open>
  A progress body in the shape of the specification, with the stage events under
  \<open>stage_history\<close>, and one with the same events under \<open>stages\<close>.
\<close>

definition stage_entry :: jsval where
  "stage_entry =
     JObj [(''stage'', JStr ''converting_audio''), (''message'', JStr ''Converting audio''),
           (''timestamp'', JStr ''2024-05-01T10:00:00'')]"

definition spec_progress_fields :: "(string \<times> jsval) list" where
  "spec_progress_fields =
     [(''status'', JStr ''running''), (''current_stage'', JStr ''converting_audio''),
      (''overall_progress'', JNum 20), (''stage_history'', JArr [stage_entry])]"

definition code_progress_fields :: "(string \<times> jsval) list" where
  "code_progress_fields =
     [(''status'', JStr ''running''), (''current_stage'', JStr ''converting_audio''),
      (''overall_progress'', JNum 20), (''stages'', JArr [stage_entry])]"

text \<open>
  A result body in the shape of the specification, with \<open>duration_seconds\<close> and
  \<open>processing_time_seconds\<close>, and one with the same values under \<open>duration\<close> and
  \<open>processing_time\<close>.
\<close>

definition spec_payload_fields :: "(string \<times> jsval) list" where
  "spec_payload_fields =
     [(''transcript'', JStr ''otitis externa''), (''confidence'', JNum (9 / 10)),
      (''duration_seconds'', JNum 3), (''diagnoses'', JArr [JStr ''otitis externa'']),
      (''treatments'', JArr [JStr ''ear drops'']), (''processing_time_seconds'', JNum (3 / 2)),
      (''task_id'', JStr ''t1'')]"

definition code_payload_fields :: "(string \<times> jsval) list" where
  "code_payload_fields =
     [(''transcript'', JStr ''otitis externa''), (''confidence'', JNum (9 / 10)),
      (''duration'', JNum 3), (''diagnoses'', JArr [JStr ''otitis externa'']),
      (''treatments'', JArr [JStr ''ear drops'']), (''processing_time'', JNum (3 / 2)),
      (''task_id'', JStr ''t1'')]"

text \<open>A result body whose transcript is an object.\<close>

definition object_payload_fields :: "(string \<times> jsval) list" where
  "object_payload_fields =
     [(''transcript'', JObj [(''text'', JStr ''otitis externa'')]),
      (''confidence'', JNum (9 / 10)), (''duration'', JNum 3),
      (''diagnoses'', JArr [JStr ''otitis externa'']),
      (''treatments'', JArr [JStr ''ear drops'']), (''processing_time'', JNum (3 / 2)),
      (''task_id'', JStr ''t1'')]"

section \<open>The task registry and the orchestrator\<close>

text \<open>
  Modelled from the spec: the server that owns the tasks (task registry and pipeline
  orchestrator) is not among the sources; the definitions of this section follow
  sections 3, 4.1 and 4.5 of the specification.
\<close>

datatype task_status = Queued | Running | Completed | Failed

text \<open>Modelled from the spec: the values of \<open>current_stage\<close> (section 3).\<close>

datatype stage_name =
    Received
  | Converting_audio
  | Transcribing
  | Extracting_entities
  | Stage_completed
  | Stage_error

text \<open>Modelled from the spec: one entry of \<open>stage_history\<close> (section 3).\<close>

record stage_event =
  se_stage :: stage_name
  se_message :: string
  se_timestamp :: nat

text \<open>Modelled from the spec: the \<open>result\<close> of a completed task (section 3).\<close>

record task_result =
  transcript :: string
  confidence :: real
  duration_seconds :: real
  diagnoses :: "string list"
  treatments :: "string list"
  processing_time_seconds :: real

text \<open>
  Modelled from the spec: \<open>error_detail\<close>, a message and the stage at which the
  failure occurred (section 3).
\<close>

record failure =
  failure_message :: string
  failure_stage :: stage_name

text \<open>Modelled from the spec: the Task of section 3.\<close>

record task =
  task_ident :: nat
  status :: task_status
  current_stage :: stage_name
  overall_progress :: nat
  stage_history :: "stage_event list"
  result :: "task_result option"
  error_detail :: "failure option"
  created_at :: nat











text \<open>
  Modelled from the spec: one mutation of the registry, that is one call of an operation
  of section 4.1 for one task. Each is atomic on its own (sections 4.1 and 5), so the
  registry after each of them is a point that a reader can observe.
\<close>

datatype mutation =
    Set_running nat
  | Append_stage nat stage_name string nat
  | Complete nat task_result
  | Fail nat failure












text \<open>
  What holds of the worker of task \<open>i\<close>: the mutations it has still to make are for
  \<open>i\<close>, only the last of them may be \<open>complete\<close> or \<open>fail\<close>, and while it has some to
  make the task is not completed.
\<close>

fun target :: "mutation \<Rightarrow> nat" where
  "target (Set_running i) = i"
| "target (Append_stage i st msg now) = i"
| "target (Complete i res) = i"
| "target (Fail i detail) = i"

fun mild :: "mutation \<Rightarrow> bool" where
  "mild (Set_running i) = True"
| "mild (Append_stage i st msg now) = True"
| "mild m = False"

definition worker_ok :: "nat \<Rightarrow> task option \<Rightarrow> mutation list \<Rightarrow> bool" where
  "worker_ok i to ms =
     ((\<forall>m\<in>set ms. target m = i) \<and> list_all mild (butlast ms) \<and>
      (ms \<noteq> [] \<longrightarrow> (\<forall>t. to = Some t \<longrightarrow> status t \<noteq> Completed)))"






section \<open>The polling loop of AudioRecorder\<close>

lemmas handler_defs = startRecording_def startRecording_granted_def startRecording_catch_def
  ondataavailable_def stopRecording_def processAudio_def onstop_def processAudio_catch_def
  pollProgress_def processAudio_resume_def clearInterval_ref_def poll_catch_def poll_tick_def
  poll_on_progress_def poll_on_results_def resume_def suspend_def emit_def

lemmas eval_defs = handler_defs start_disabled_def stop_disabled_def new_Blob_def
  blob_size_def lookup_field_def js_or_def opt_prop_def

lemma run_Nil [simp]: "run [] s = s"
  by (simp add: run_def)

lemma run_Cons [simp]: "run (e # evs) s = run evs (step e s)"
  by (simp add: run_def)

lemma run_append: "run (xs @ ys) s = run ys (run xs s)"
  by (simp add: run_def)

lemma after_submit_t1:
  "run submit_t1 init =
     \<lparr>isRecording = False, isProcessing = True, currentTaskId = JStr ''t1'', error = JNull,
      progressIntervalRef = Some 3, mediaRecorderRef = Some 1, audioChunksRef = [chunk1],
      intervals = [(3, JStr ''t1'')], pending = [], next_id = 4,
      out = [GetUserMedia, NewMediaRecorder ''audio/webm;codecs=opus'', RecorderStop,
             PostTranscribe [(''file'', new_Blob [chunk1] ''audio/webm'', ''recording.webm'')]]\<rparr>"
  by (simp add: submit_t1_def init_def chunk1_def eval_defs)

lemma after_two_polls_in_flight:
  "run two_polls_in_flight init =
     (run submit_t1 init)
       \<lparr>pending := [(4, AfterProgress (JStr ''t1'')), (5, AfterProgress (JStr ''t1''))],
        next_id := 6,
        out := out (run submit_t1 init) @ [GetProgress (JStr ''t1''), GetProgress (JStr ''t1'')]\<rparr>"
  by (simp add: two_polls_in_flight_def run_append after_submit_t1 handler_defs)

subsection \<open>When the interval is cleared\<close>

lemma map_of_filter_key: "map_of (filter (\<lambda>(i, t). i \<noteq> k) xs) k = None"
  by (induction xs) auto

lemma polling_cong:
  "progressIntervalRef s' = progressIntervalRef s \<Longrightarrow> intervals s' = intervals s
     \<Longrightarrow> polling s' = polling s"
  by (simp add: polling_def split: option.split)

lemma polling_clearInterval_ref [simp]: "\<not> polling (clearInterval_ref s)"
  by (cases "progressIntervalRef s")
     (simp_all add: polling_def clearInterval_ref_def map_of_filter_key)

lemma polling_poll_catch [simp]: "\<not> polling (poll_catch s)"
proof -
  have "polling (poll_catch s) = polling (clearInterval_ref s)"
    by (rule polling_cong) (simp_all add: poll_catch_def)
  then show ?thesis by simp
qed

lemma polling_emit [simp]: "polling (emit a s) = polling s"
  by (rule polling_cong) (simp_all add: emit_def)

lemma polling_suspend [simp]: "polling (suspend k s) = polling s"
  by (rule polling_cong) (simp_all add: suspend_def)

lemma polling_resume [simp]: "polling (resume k s) = polling s"
  by (rule polling_cong) (simp_all add: resume_def)

lemma conts_emit [simp]: "conts (emit a s) = conts s"
  by (simp add: conts_def emit_def)

lemma conts_suspend [simp]: "conts (suspend c s) = insert c (conts s)"
  by (simp add: conts_def suspend_def)

lemma conts_resume: "conts (resume k s) \<subseteq> conts s"
  by (auto simp: conts_def resume_def)

lemma conts_clearInterval_ref [simp]: "conts (clearInterval_ref s) = conts s"
  by (simp add: conts_def clearInterval_ref_def)

lemma conts_poll_catch [simp]: "conts (poll_catch s) = conts s"
  by (simp add: conts_def poll_catch_def clearInterval_ref_def)

lemma conts_poll_on_progress:
  "conts (poll_on_progress t r s) =
     (if observes_completed r then insert (AfterResults t) (conts s) else conts s)"
proof (cases r)
  case (Rejected err)
  then show ?thesis by (simp add: poll_on_progress_def)
next
  case (Resolved p)
  have "conts ((clearInterval_ref (emit (OnProgressUpdate p) s))
          \<lparr>error := e, isProcessing := False, currentTaskId := JNull\<rparr>) = conts s" for e
    by (simp add: conts_def clearInterval_ref_def emit_def)
  with Resolved show ?thesis
    by (cases "get_prop p ''status''") (simp_all add: poll_on_progress_def Let_def)
qed

lemma conts_poll_on_results [simp]: "conts (poll_on_results t r s) = conts s"
proof (cases r)
  case (Resolved body)
  then show ?thesis by (simp add: poll_on_results_def conts_def emit_def)
next
  case (Rejected err)
  then show ?thesis by (simp add: poll_on_results_def)
qed

lemma observes_completed_stops: "observes_completed r \<Longrightarrow> \<not> keeps_polling r"
  by (cases r) auto

lemma pending_in_conts: "map_of (pending s) k = Some c \<Longrightarrow> c \<in> conts s"
  by (force simp: conts_def dest: map_of_SomeD)

lemma uploads_Cons: "uploads (e # evs) s = uploads [e] s + uploads evs (step e s)"
  by (cases e) simp_all

lemma progress_replies_Cons:
  "progress_replies (e # evs) s = progress_replies [e] s @ progress_replies evs (step e s)"
  by (cases e) simp_all

lemma returned_ids_Cons_eq:
  "returned_ids (e # evs) s = returned_ids [e] s @ returned_ids evs (step e s)"
proof (cases e)
  case (Settle k r)
  show ?thesis
  proof (cases r)
    case (Resolved body)
    show ?thesis unfolding Settle Resolved
      by (simp only: returned_ids.simps append_Nil2 append_assoc)
  next
    case (Rejected err)
    show ?thesis unfolding Settle Rejected by simp
  qed
qed simp_all

lemma solo_cong:
  "progressIntervalRef s' = progressIntervalRef s \<Longrightarrow> intervals s' = intervals s
     \<Longrightarrow> solo s' = solo s"
  by (simp add: solo_def)

lemma solo_clearInterval_ref: "solo s \<Longrightarrow> intervals (clearInterval_ref s) = []"
  by (auto simp: solo_def clearInterval_ref_def filter_empty_conv)

lemma solo_Nil: "intervals s = [] \<Longrightarrow> solo s"
  by (simp add: solo_def)

lemma intervals_poll_catch: "solo s \<Longrightarrow> intervals (poll_catch s) = []"
  by (simp add: poll_catch_def solo_clearInterval_ref)

lemma ref_poll_on_progress [simp]:
  "progressIntervalRef (poll_on_progress t r s) = progressIntervalRef s"
  by (simp add: poll_on_progress_def poll_catch_def clearInterval_ref_def emit_def suspend_def
      Let_def split: settled.split option.split)

lemma intervals_poll_on_progress:
  assumes "solo s"
  shows "intervals (poll_on_progress t r s) = (if keeps_polling r then intervals s else [])"
proof (cases r)
  case (Rejected err)
  with assms show ?thesis by (simp add: poll_on_progress_def intervals_poll_catch)
next
  case (Resolved p)
  have s1: "solo (emit (OnProgressUpdate p) s)"
    using assms by (simp add: solo_def emit_def)
  have c: "intervals (clearInterval_ref (emit (OnProgressUpdate p) s)) = []"
    using s1 by (rule solo_clearInterval_ref)
  have k: "intervals (poll_catch (emit (OnProgressUpdate p) s)) = []"
    using s1 by (rule intervals_poll_catch)
  show ?thesis
  proof (cases "get_prop p ''status''")
    case None
    with Resolved k show ?thesis by (simp add: poll_on_progress_def Let_def)
  next
    case (Some st)
    with Resolved c show ?thesis
      by (simp add: poll_on_progress_def Let_def suspend_def emit_def)
  qed
qed

lemma solo_poll_on_progress:
  assumes "solo s"
  shows "solo (poll_on_progress t r s)"
proof (cases "keeps_polling r")
  case True
  have "solo (poll_on_progress t r s) = solo s"
    by (rule solo_cong) (simp_all add: intervals_poll_on_progress [OF assms] True)
  with assms show ?thesis by simp
next
  case False
  then have "intervals (poll_on_progress t r s) = []"
    by (simp add: intervals_poll_on_progress [OF assms])
  then show ?thesis by (rule solo_Nil)
qed

lemma intervals_poll_on_results:
  "intervals s = [] \<Longrightarrow> intervals (poll_on_results t r s) = []"
  by (cases r) (simp_all add: poll_on_results_def poll_catch_def clearInterval_ref_def emit_def)

lemma intervals_resume [simp]: "intervals (resume k s) = intervals s"
  by (simp add: resume_def)

lemma solo_resume [simp]: "solo (resume k s) = solo s"
  by (rule solo_cong) (simp_all add: resume_def)

lemma pending_not_in_conts: "c \<notin> conts s \<Longrightarrow> map_of (pending s) k \<noteq> Some c"
  using pending_in_conts by blast

text \<open>One event after the upload was answered and while no other upload is made.\<close>

lemma step_after_upload:
  assumes "solo s" and "results_pending s \<longrightarrow> intervals s = []" and "no_post_pending s"
    and "uploads [e] s = 0"
  shows "solo (step e s) \<and> (results_pending (step e s) \<longrightarrow> intervals (step e s) = []) \<and>
         no_post_pending (step e s) \<and>
         (intervals (step e s) \<noteq> []) =
           (intervals s \<noteq> [] \<and> list_all keeps_polling (progress_replies [e] s)) \<and>
         returned_ids [e] s = []"
proof (cases e)
  case ClickStart
  have "solo (startRecording s) = solo s"
    by (rule solo_cong) (simp_all add: startRecording_def suspend_def emit_def)
  moreover have "intervals (startRecording s) = intervals s"
    by (simp add: startRecording_def suspend_def emit_def)
  moreover have "conts (startRecording s) = insert AfterGetUserMedia (conts s)"
    by (simp add: startRecording_def)
  ultimately show ?thesis using assms ClickStart
    by (simp add: results_pending_def no_post_pending_def)
next
  case ClickStop
  have "solo (stopRecording s) = solo s"
    by (rule solo_cong) (simp_all add: stopRecording_def emit_def)
  moreover have "intervals (stopRecording s) = intervals s"
    by (simp add: stopRecording_def emit_def)
  moreover have "conts (stopRecording s) = conts s"
    by (simp add: stopRecording_def emit_def conts_def)
  ultimately show ?thesis using assms ClickStop
    by (simp add: results_pending_def no_post_pending_def)
next
  case (MediaGranted k sup)
  let ?s' = "startRecording_granted sup (resume k s)"
  have "solo ?s' = solo s"
    by (rule solo_cong) (simp_all add: startRecording_granted_def emit_def resume_def)
  moreover have "intervals ?s' = intervals s"
    by (simp add: startRecording_granted_def emit_def resume_def)
  moreover have "conts ?s' \<subseteq> conts s"
    using conts_resume [of k s] by (simp add: startRecording_granted_def emit_def conts_def)
  ultimately show ?thesis using assms MediaGranted
    by (auto simp: results_pending_def no_post_pending_def)
next
  case (MediaDenied k)
  let ?s' = "startRecording_catch (resume k s)"
  have "solo ?s' = solo s"
    by (rule solo_cong) (simp_all add: startRecording_catch_def resume_def)
  moreover have "intervals ?s' = intervals s"
    by (simp add: startRecording_catch_def resume_def)
  moreover have "conts ?s' \<subseteq> conts s"
    using conts_resume [of k s] by (simp add: startRecording_catch_def conts_def)
  ultimately show ?thesis using assms MediaDenied
    by (auto simp: results_pending_def no_post_pending_def)
next
  case (DataAvailable d)
  have "solo (ondataavailable d s) = solo s"
    by (rule solo_cong) (simp_all add: ondataavailable_def)
  moreover have "intervals (ondataavailable d s) = intervals s"
    by (simp add: ondataavailable_def)
  moreover have "conts (ondataavailable d s) = conts s"
    by (simp add: ondataavailable_def conts_def)
  ultimately show ?thesis using assms DataAvailable
    by (simp add: results_pending_def no_post_pending_def)
next
  case RecorderStopped
  with assms(4) have "mediaRecorderRef s = None" by (simp split: if_splits)
  with assms RecorderStopped show ?thesis by simp
next
  case (TimerFire i)
  show ?thesis
  proof (cases "map_of (intervals s) i")
    case None
    with assms TimerFire show ?thesis by simp
  next
    case (Some t)
    have "solo (poll_tick t s) = solo s"
      by (rule solo_cong) (simp_all add: poll_tick_def suspend_def emit_def)
    moreover have "intervals (poll_tick t s) = intervals s"
      by (simp add: poll_tick_def suspend_def emit_def)
    moreover have "conts (poll_tick t s) = insert (AfterProgress t) (conts s)"
      by (simp add: poll_tick_def)
    ultimately show ?thesis using assms TimerFire Some
      by (simp add: results_pending_def no_post_pending_def)
  qed
next
  case (Settle k r)
  have ret: "returned_ids [e] s = []"
  proof (cases r)
    case (Resolved body)
    have "map_of (pending s) k \<noteq> Some AfterPost"
      using assms(3) by (intro pending_not_in_conts) (simp add: no_post_pending_def)
    then show ?thesis unfolding Settle Resolved by simp
  next
    case (Rejected err)
    show ?thesis unfolding Settle Rejected by simp
  qed
  show ?thesis
  proof (cases "map_of (pending s) k")
    case None
    with assms Settle ret show ?thesis by simp
  next
    case (Some c)
    then have c: "c \<in> conts s" by (rule pending_in_conts)
    have sub: "conts (resume k s) \<subseteq> conts s" by (rule conts_resume)
    show ?thesis
    proof (cases c)
      case AfterGetUserMedia
      with assms Settle Some ret show ?thesis by simp
    next
      case AfterPost
      with c assms(3) show ?thesis by (simp add: no_post_pending_def)
    next
      case (AfterProgress t)
      have st: "step e s = poll_on_progress t r (resume k s)"
        using Settle Some AfterProgress by simp
      have so: "solo (resume k s)" using assms(1) by simp
      have i: "intervals (step e s) = (if keeps_polling r then intervals s else [])"
        unfolding st by (simp add: intervals_poll_on_progress [OF so])
      have s': "solo (step e s)" unfolding st using so by (rule solo_poll_on_progress)
      have cs: "conts (step e s) \<subseteq>
          (if observes_completed r then insert (AfterResults t) (conts s) else conts s)"
        unfolding st using sub by (auto simp: conts_poll_on_progress)
      have np: "no_post_pending (step e s)"
        using cs assms(3) by (auto simp: no_post_pending_def split: if_splits)
      have rp: "results_pending (step e s) \<longrightarrow> intervals (step e s) = []"
        using cs assms(2) i observes_completed_stops [of r]
        by (auto simp: results_pending_def split: if_splits)
      have pr: "progress_replies [e] s = [r]" using Settle Some AfterProgress by simp
      show ?thesis using s' rp np i pr ret by simp
    next
      case (AfterResults t)
      with c have "results_pending s" by (auto simp: results_pending_def)
      with assms(2) have n: "intervals s = []" by simp
      have st: "step e s = poll_on_results t r (resume k s)"
        using Settle Some AfterResults by simp
      have i: "intervals (step e s) = []"
        unfolding st using n by (intro intervals_poll_on_results) simp
      then have s': "solo (step e s)" by (rule solo_Nil)
      have "conts (step e s) \<subseteq> conts s" unfolding st using sub by simp
      then have np: "no_post_pending (step e s)"
        using assms(3) by (auto simp: no_post_pending_def)
      have pr: "progress_replies [e] s = []" using Settle Some AfterResults by simp
      show ?thesis using s' np i n pr ret by simp
    qed
  qed
qed

lemma run_after_upload:
  assumes "solo s" and "results_pending s \<longrightarrow> intervals s = []" and "no_post_pending s"
    and "uploads evs s = 0"
  shows "(intervals (run evs s) \<noteq> []) =
           (intervals s \<noteq> [] \<and> list_all keeps_polling (progress_replies evs s)) \<and>
         returned_ids evs s = []"
  using assms
proof (induction evs arbitrary: s)
  case Nil
  then show ?case by simp
next
  case (Cons e evs)
  from Cons.prems(4) have u: "uploads [e] s = 0" and u': "uploads evs (step e s) = 0"
    by (simp_all add: uploads_Cons [of e evs s])
  note st = step_after_upload [OF Cons.prems(1,2,3) u]
  from st have a: "solo (step e s)"
    and b: "results_pending (step e s) \<longrightarrow> intervals (step e s) = []"
    and c: "no_post_pending (step e s)" by blast+
  note ih = Cons.IH [OF a b c u']
  show ?case
    using st ih
    by (simp add: progress_replies_Cons [of e evs s] returned_ids_Cons_eq [of e evs s])
qed


lemma posts_zero: "(posts s = 0) = no_post_pending s"
  by (force simp: posts_def no_post_pending_def conts_def filter_empty_conv)

lemma filter_swap: "filter P (filter Q xs) = filter Q (filter P xs)"
  by (induction xs) simp_all

lemma posts_resume:
  "posts (resume k s) =
     length (filter (\<lambda>(i, c). i \<noteq> k) (filter (\<lambda>(k, c). c = AfterPost) (pending s)))"
proof -
  have "posts (resume k s) =
      length (filter (\<lambda>(k, c). c = AfterPost) (filter (\<lambda>(i, c). i \<noteq> k) (pending s)))"
    by (simp add: posts_def resume_def del: filter_filter)
  then show ?thesis by (simp only: filter_swap)
qed

lemma posts_resume_le: "posts (resume k s) \<le> posts s"
  unfolding posts_resume unfolding posts_def by (rule length_filter_le)

lemma posts_resume_less:
  assumes "map_of (pending s) k = Some AfterPost"
  shows "posts (resume k s) < posts s"
proof -
  from assms have "(k, AfterPost) \<in> set (pending s)" by (rule map_of_SomeD)
  then have "(k, AfterPost) \<in> set (filter (\<lambda>(k, c). c = AfterPost) (pending s))" by simp
  moreover have "\<not> (\<lambda>(i, c :: cont). i \<noteq> k) (k, AfterPost)" by simp
  ultimately show ?thesis
    unfolding posts_resume unfolding posts_def by (rule length_filter_less)
qed

lemma posts_cong: "pending s' = pending s \<Longrightarrow> posts s' = posts s"
  by (simp add: posts_def)

lemma intervals_processAudio_catch [simp]:
  "intervals (processAudio_catch err s) = intervals s"
  by (simp add: processAudio_catch_def split: option.split)

lemma pending_processAudio_catch [simp]:
  "pending (processAudio_catch err s) = pending s"
  by (simp add: processAudio_catch_def split: option.split)

text \<open>One event before the upload is answered with a task id.\<close>

lemma step_before_upload:
  assumes "intervals s = []" and "conts s \<subseteq> {AfterGetUserMedia, AfterPost}"
    and "returned_ids [e] s = []"
  shows "intervals (step e s) = [] \<and> conts (step e s) \<subseteq> {AfterGetUserMedia, AfterPost} \<and>
         posts (step e s) \<le> posts s + uploads [e] s \<and> progress_replies [e] s = []"
proof (cases e)
  case ClickStart
  have "intervals (startRecording s) = intervals s"
    and "posts (startRecording s) = posts s"
    by (simp_all add: startRecording_def suspend_def emit_def posts_def)
  moreover have "conts (startRecording s) = insert AfterGetUserMedia (conts s)"
    by (simp add: startRecording_def)
  ultimately show ?thesis using assms ClickStart by auto
next
  case ClickStop
  have "intervals (stopRecording s) = intervals s" and "posts (stopRecording s) = posts s"
    and "conts (stopRecording s) = conts s"
    by (simp_all add: stopRecording_def emit_def posts_def conts_def)
  then show ?thesis using assms ClickStop by auto
next
  case (MediaGranted k sup)
  let ?s' = "startRecording_granted sup (resume k s)"
  have "intervals ?s' = intervals s" and "posts ?s' = posts (resume k s)"
    and "conts ?s' = conts (resume k s)"
    by (simp_all add: startRecording_granted_def emit_def posts_def conts_def)
  then show ?thesis
    using assms MediaGranted conts_resume [of k s] posts_resume_le [of k s] by auto
next
  case (MediaDenied k)
  let ?s' = "startRecording_catch (resume k s)"
  have "intervals ?s' = intervals s" and "posts ?s' = posts (resume k s)"
    and "conts ?s' = conts (resume k s)"
    by (simp_all add: startRecording_catch_def posts_def conts_def)
  then show ?thesis
    using assms MediaDenied conts_resume [of k s] posts_resume_le [of k s] by auto
next
  case (DataAvailable d)
  have "intervals (ondataavailable d s) = intervals s"
    and "posts (ondataavailable d s) = posts s" and "conts (ondataavailable d s) = conts s"
    by (simp_all add: ondataavailable_def posts_def conts_def)
  then show ?thesis using assms DataAvailable by auto
next
  case RecorderStopped
  have "intervals (onstop s) = intervals s" and "posts (onstop s) = Suc (posts s)"
    by (simp_all add: onstop_def processAudio_def suspend_def emit_def posts_def)
  moreover have "conts (onstop s) = insert AfterPost (conts s)"
    by (simp add: onstop_def processAudio_def conts_def suspend_def emit_def)
  ultimately show ?thesis using assms RecorderStopped by auto
next
  case (TimerFire i)
  with assms show ?thesis by simp
next
  case (Settle k r)
  show ?thesis
  proof (cases "map_of (pending s) k")
    case None
    with assms Settle show ?thesis by simp
  next
    case (Some c)
    then have c: "c \<in> conts s" by (rule pending_in_conts)
    with assms(2) have "c = AfterGetUserMedia \<or> c = AfterPost" by auto
    then show ?thesis
    proof
      assume "c = AfterGetUserMedia"
      with assms Settle Some show ?thesis by simp
    next
      assume post: "c = AfterPost"
      have st: "step e s = processAudio_resume r (resume k s)"
        using Settle Some post by simp
      have "\<exists>err. processAudio_resume r (resume k s) = processAudio_catch err (resume k s)"
      proof (cases r)
        case (Rejected err)
        then show ?thesis by (auto simp: processAudio_resume_def)
      next
        case (Resolved body)
        have "returned_ids [Settle k (Resolved body)] s =
            (case get_prop body ''task_id'' of None \<Rightarrow> [] | Some t \<Rightarrow> [t])"
          using Some post by simp
        with assms(3) have "get_prop body ''task_id'' = None"
          unfolding Settle Resolved by (simp split: option.splits)
        with Resolved show ?thesis by (auto simp: processAudio_resume_def)
      qed
      then obtain err where st': "step e s = processAudio_catch err (resume k s)"
        using st by auto
      have "intervals (step e s) = []" unfolding st' using assms(1) by simp
      moreover have "conts (step e s) \<subseteq> conts s"
        unfolding st' using conts_resume [of k s] by (simp add: conts_def)
      moreover have "posts (step e s) \<le> posts s"
        unfolding st' using posts_resume_le [of k s] by (simp add: posts_def)
      moreover have "progress_replies [e] s = []" using Settle Some post by simp
      ultimately show ?thesis using assms(2) by auto
    qed
  qed
qed

text \<open>The event with which the upload is answered with a task id.\<close>

lemma step_upload_answered:
  assumes "intervals s = []" and "conts s \<subseteq> {AfterGetUserMedia, AfterPost}"
    and "returned_ids [e] s \<noteq> []"
  shows "solo (step e s) \<and> intervals (step e s) \<noteq> [] \<and> \<not> results_pending (step e s) \<and>
         posts (step e s) < posts s \<and> progress_replies [e] s = [] \<and> uploads [e] s = 0"
proof (cases e)
  case (Settle k r)
  show ?thesis
  proof (cases r)
    case (Rejected err)
    with assms(3) Settle show ?thesis by simp
  next
    case (Resolved body)
    from assms(3) have post: "map_of (pending s) k = Some AfterPost"
      unfolding Settle Resolved by (simp split: if_splits)
    with assms(3) obtain t where t: "get_prop body ''task_id'' = Some t"
      unfolding Settle Resolved by (auto split: option.splits)
    have st: "step e s = pollProgress t ((resume k s)\<lparr>currentTaskId := t\<rparr>)"
      using Settle Resolved post t by (simp add: processAudio_resume_def)
    have i: "intervals (step e s) = [(next_id s, t)]"
      and r: "progressIntervalRef (step e s) = Some (next_id s)"
      and p: "pending (step e s) = pending (resume k s)"
      unfolding st using assms(1) by (simp_all add: pollProgress_def resume_def)
    from p have cs: "conts (step e s) \<subseteq> conts s"
      using conts_resume [of k s] by (simp add: conts_def)
    from p have "posts (step e s) = posts (resume k s)" by (rule posts_cong)
    with posts_resume_less [OF post] have "posts (step e s) < posts s" by simp
    moreover have "solo (step e s)" using i r by (simp add: solo_def)
    moreover have "\<not> results_pending (step e s)"
      using cs assms(2) by (auto simp: results_pending_def)
    moreover have "progress_replies [e] s = []" using Settle post by simp
    ultimately show ?thesis using i Settle by simp
  qed
qed (use assms(3) in simp_all)

lemma run_before_upload:
  assumes "intervals s = []" and "conts s \<subseteq> {AfterGetUserMedia, AfterPost}"
    and "uploads evs s + posts s \<le> 1"
  shows "(intervals (run evs s) \<noteq> []) =
           (returned_ids evs s \<noteq> [] \<and> list_all keeps_polling (progress_replies evs s))"
  using assms
proof (induction evs arbitrary: s)
  case Nil
  then show ?case by simp
next
  case (Cons e evs)
  from Cons.prems(3) have b: "uploads [e] s + uploads evs (step e s) + posts s \<le> 1"
    by (simp add: uploads_Cons [of e evs s])
  show ?case
  proof (cases "returned_ids [e] s = []")
    case True
    note st = step_before_upload [OF Cons.prems(1,2) True]
    from st have i: "intervals (step e s) = []"
      and c: "conts (step e s) \<subseteq> {AfterGetUserMedia, AfterPost}"
      and p: "posts (step e s) \<le> posts s + uploads [e] s"
      and r: "progress_replies [e] s = []" by blast+
    from b p have "uploads evs (step e s) + posts (step e s) \<le> 1" by simp
    with i c have "(intervals (run evs (step e s)) \<noteq> []) =
        (returned_ids evs (step e s) \<noteq> [] \<and>
         list_all keeps_polling (progress_replies evs (step e s)))"
      by (rule Cons.IH)
    then show ?thesis
      using True r
      by (simp add: progress_replies_Cons [of e evs s] returned_ids_Cons_eq [of e evs s])
  next
    case False
    note st = step_upload_answered [OF Cons.prems(1,2) False]
    from st have so: "solo (step e s)" and i: "intervals (step e s) \<noteq> []"
      and rp: "\<not> results_pending (step e s)" and p: "posts (step e s) < posts s"
      and r: "progress_replies [e] s = []" by blast+
    from b p have "posts (step e s) = 0" and u: "uploads evs (step e s) = 0" by simp_all
    then have np: "no_post_pending (step e s)" by (simp add: posts_zero)
    from rp have rp': "results_pending (step e s) \<longrightarrow> intervals (step e s) = []" by simp
    from run_after_upload [OF so rp' np u] i
    have "(intervals (run evs (step e s)) \<noteq> []) =
        list_all keeps_polling (progress_replies evs (step e s))" by simp
    then show ?thesis
      using False r
      by (simp add: progress_replies_Cons [of e evs s] returned_ids_Cons_eq [of e evs s])
  qed
qed

lemma quiet_posts: "quiet s \<Longrightarrow> posts s = 0"
  by (auto simp: quiet_def posts_zero no_post_pending_def)

lemma after_stale_result_run:
  "intervals (run stale_result_run init) = [(10, JStr ''t2'')] \<and>
   pending (run stale_result_run init) = [(6, AfterResults (JStr ''t1''))] \<and>
   progressIntervalRef (run stale_result_run init) = Some 10"
  by (simp add: stale_result_run_def run_append after_two_polls_in_flight after_submit_t1
      error_progress_def completed_progress_def chunk1_def eval_defs)

text \<open>
  C1, as stated, fails. The callback compares the status with \<open>'completed'\<close> and with
  \<open>'error'\<close>, never with \<open>'failed'\<close>: after a poll of task \<open>t1\<close> has observed the status
  \<open>'failed'\<close>, the interval is still set. A poll that is rejected clears the interval,
  with no status observed. And when task \<open>t2\<close> is submitted while a result query of
  \<open>t1\<close> is in flight, the rejection of that query clears the interval of \<open>t2\<close>, for
  which no progress request has settled.
\<close>

theorem polling_is_not_until_completed_or_failed:
  "get_prop failed_progress ''status'' = Some (JStr ''failed'') \<and>
   intervals (run (submit_t1 @ [TimerFire 3, Settle 4 (Resolved failed_progress)]) init)
     = [(3, JStr ''t1'')] \<and>
   intervals (run (submit_t1 @ [TimerFire 3, Settle 4 (Rejected network_error)]) init) = [] \<and>
   intervals (run stale_result_run init) = [(10, JStr ''t2'')] \<and>
   progress_replies [Settle 6 (Rejected network_error)] (run stale_result_run init) = [] \<and>
   intervals (run (stale_result_run @ [Settle 6 (Rejected network_error)]) init) = []"
proof -
  have a: "get_prop failed_progress ''status'' = Some (JStr ''failed'')"
    by (simp add: failed_progress_def lookup_field_def)
  have b: "intervals (run (submit_t1 @ [TimerFire 3, Settle 4 (Resolved failed_progress)]) init)
     = [(3, JStr ''t1'')]"
    by (simp add: run_append after_submit_t1 failed_progress_def eval_defs)
  have c: "intervals (run (submit_t1 @ [TimerFire 3, Settle 4 (Rejected network_error)]) init)
     = []"
    by (simp add: run_append after_submit_t1 eval_defs)
  note d = after_stale_result_run
  have e: "progress_replies [Settle 6 (Rejected network_error)] (run stale_result_run init) = []"
    by (simp add: d)
  have f: "intervals (run (stale_result_run @ [Settle 6 (Rejected network_error)]) init) = []"
    by (simp add: run_append d eval_defs)
  from a b c d e f show ?thesis by blast
qed

text \<open>
  C1, amended. For a task submitted while the client is at rest (no interval is set, and
  no upload, poll or result query of an earlier task is in flight), and until the next
  upload: an interval is set if and only if the upload has been answered with a task
  id and every progress request that has settled resolved with a readable status other
  than \<open>'completed'\<close> and \<open>'error'\<close>. So the client stops polling exactly when a poll
  observes \<open>'completed'\<close> or \<open>'error'\<close> or fails, and a task reported as \<open>'failed'\<close>
  leaves it polling.
\<close>

theorem polls_until_completed_error_or_failure:
  assumes "quiet s" and "uploads evs s \<le> 1"
  shows "(intervals (run evs s) \<noteq> []) =
           (returned_ids evs s \<noteq> [] \<and> list_all keeps_polling (progress_replies evs s))"
proof -
  from assms(1) have "intervals s = []" and "conts s \<subseteq> {AfterGetUserMedia, AfterPost}"
    by (auto simp: quiet_def)
  moreover from assms have "uploads evs s + posts s \<le> 1" by (simp add: quiet_posts)
  ultimately show ?thesis by (rule run_before_upload)
qed

theorem polls_until_witness:
  "quiet init \<and>
   uploads (submit_t1 @ [TimerFire 3, Settle 4 (Resolved running_progress),
                         TimerFire 3, Settle 5 (Resolved error_progress)]) init = 1 \<and>
   returned_ids (submit_t1 @ [TimerFire 3, Settle 4 (Resolved running_progress)]) init
     = [JStr ''t1''] \<and>
   progress_replies (submit_t1 @ [TimerFire 3, Settle 4 (Resolved running_progress),
                         TimerFire 3, Settle 5 (Resolved error_progress)]) init
     = [Resolved running_progress, Resolved error_progress] \<and>
   intervals (run (submit_t1 @ [TimerFire 3, Settle 4 (Resolved running_progress)]) init)
     \<noteq> [] \<and>
   intervals (run (submit_t1 @ [TimerFire 3, Settle 4 (Resolved running_progress),
                         TimerFire 3, Settle 5 (Resolved error_progress)]) init) = []"
proof -
  let ?e1 = "submit_t1 @ [TimerFire 3, Settle 4 (Resolved running_progress)]"
  let ?e2 = "submit_t1 @ [TimerFire 3, Settle 4 (Resolved running_progress),
                         TimerFire 3, Settle 5 (Resolved error_progress)]"
  have q: "quiet init" by (simp add: quiet_def init_def conts_def)
  have u1: "uploads ?e1 init = 1"
    by (simp add: submit_t1_def init_def chunk1_def running_progress_def eval_defs)
  have u2: "uploads ?e2 init = 1"
    by (simp add: submit_t1_def init_def chunk1_def running_progress_def error_progress_def
        eval_defs)
  have r1: "returned_ids ?e1 init = [JStr ''t1'']"
    by (simp add: submit_t1_def init_def chunk1_def running_progress_def eval_defs)
  have r2: "returned_ids ?e2 init = [JStr ''t1'']"
    by (simp add: submit_t1_def init_def chunk1_def running_progress_def error_progress_def
        eval_defs)
  have p1: "progress_replies ?e1 init = [Resolved running_progress]"
    by (simp add: submit_t1_def init_def chunk1_def running_progress_def eval_defs)
  have p2: "progress_replies ?e2 init = [Resolved running_progress, Resolved error_progress]"
    by (simp add: submit_t1_def init_def chunk1_def running_progress_def error_progress_def
        eval_defs)
  have k1: "keeps_polling (Resolved running_progress)"
    by (simp add: running_progress_def lookup_field_def)
  have k2: "\<not> keeps_polling (Resolved error_progress)"
    by (simp add: error_progress_def lookup_field_def)
  from u1 have l1: "uploads ?e1 init \<le> 1" by simp
  from u2 have l2: "uploads ?e2 init \<le> 1" by simp
  have "(intervals (run ?e1 init) \<noteq> []) =
      ([JStr ''t1''] \<noteq> [] \<and> list_all keeps_polling [Resolved running_progress])"
    using polls_until_completed_error_or_failure [OF q l1] unfolding r1 p1 .
  with k1 have a: "intervals (run ?e1 init) \<noteq> []" by simp
  have "(intervals (run ?e2 init) \<noteq> []) =
      ([JStr ''t1''] \<noteq> [] \<and>
       list_all keeps_polling [Resolved running_progress, Resolved error_progress])"
    using polls_until_completed_error_or_failure [OF q l2] unfolding r2 p2 .
  with k2 have b: "intervals (run ?e2 init) = []" by simp
  from q u2 r1 p2 a b show ?thesis by blast
qed

subsection \<open>Result queries\<close>

lemma result_queries_append: "result_queries (xs @ ys) = result_queries xs @ result_queries ys"
  by (induction xs rule: result_queries.induct) simp_all

lemma poll_round_stopped: "stopped s \<Longrightarrow> poll_round i rr s = s"
  by (simp add: stopped_def poll_round_def)

lemma poll_round_keeps:
  assumes "idle i t s" and "keeps_polling (fst rr)"
  shows "idle i t (poll_round i rr s)"
    and "result_queries (out (poll_round i rr s)) = result_queries (out s)"
  using assms
  by (cases "fst rr"; simp add: idle_def poll_round_def handler_defs Let_def
        result_queries_append split: option.splits)+

lemma poll_round_completed:
  assumes "idle i t s" and "observes_completed (fst rr)"
  shows "stopped (poll_round i rr s)"
    and "result_queries (out (poll_round i rr s)) = result_queries (out s) @ [t]"
  using assms
  by (cases "fst rr"; cases "snd rr"; simp add: idle_def stopped_def poll_round_def
        handler_defs Let_def result_queries_append split: option.splits)+

lemma poll_round_other:
  assumes "idle i t s" and "\<not> keeps_polling (fst rr)" and "\<not> observes_completed (fst rr)"
  shows "stopped (poll_round i rr s)"
    and "result_queries (out (poll_round i rr s)) = result_queries (out s)"
  using assms
  by (cases "fst rr"; simp add: idle_def stopped_def poll_round_def handler_defs Let_def
        result_queries_append split: option.splits if_splits)+

lemma poll_rounds_stopped: "stopped s \<Longrightarrow> poll_rounds i rrs s = s"
  unfolding poll_rounds_def by (induction rrs) (simp_all add: poll_round_stopped)

lemma poll_rounds_Cons: "poll_rounds i (rr # rrs) s = poll_rounds i rrs (poll_round i rr s)"
  by (simp add: poll_rounds_def)

text \<open>
  As long as the replies keep the interval set, the loop goes on; a task whose status is
  reported as \<open>'failed'\<close> for ever is polled for ever.
\<close>

lemma polling_goes_on_while_replies_keep_it:
  assumes "idle i t s" and "list_all (\<lambda>rr. keeps_polling (fst rr)) rrs"
  shows "idle i t (poll_rounds i rrs s)"
  using assms
proof (induction rrs arbitrary: s)
  case Nil
  then show ?case by (simp add: poll_rounds_def)
next
  case (Cons rr rrs)
  from Cons.prems have "idle i t (poll_round i rr s)" by (simp add: poll_round_keeps(1))
  with Cons.IH Cons.prems(2) show ?case by (simp add: poll_rounds_Cons)
qed

lemma failed_status_keeps_polling: "keeps_polling (Resolved failed_progress)"
  by (simp add: failed_progress_def lookup_field_def)

text \<open>
  When every request settles before the interval fires again, the rounds up to the
  first reply that stops the polling issue no result query, that round issues one if
  its reply is \<open>'completed'\<close>, and the rounds after it issue nothing.
\<close>

lemma one_result_query_when_polls_do_not_overlap:
  assumes "idle i t s"
  shows "result_queries (out (poll_rounds i rrs s)) =
     result_queries (out s) @
       (case dropWhile (\<lambda>rr. keeps_polling (fst rr)) rrs of
          [] \<Rightarrow> []
        | rr # rest \<Rightarrow> if observes_completed (fst rr) then [t] else [])"
  using assms
proof (induction rrs arbitrary: s)
  case Nil
  then show ?case by (simp add: poll_rounds_def)
next
  case (Cons rr rrs)
  show ?case
  proof (cases "keeps_polling (fst rr)")
    case True
    with Cons.prems have "idle i t (poll_round i rr s)"
      and "result_queries (out (poll_round i rr s)) = result_queries (out s)"
      by (rule poll_round_keeps)+
    with Cons.IH [of "poll_round i rr s"] True show ?thesis by (simp add: poll_rounds_Cons)
  next
    case False
    show ?thesis
    proof (cases "observes_completed (fst rr)")
      case True
      with Cons.prems have "stopped (poll_round i rr s)"
        and "result_queries (out (poll_round i rr s)) = result_queries (out s) @ [t]"
        by (rule poll_round_completed)+
      with False True show ?thesis by (simp add: poll_rounds_Cons poll_rounds_stopped)
    next
      case nc: False
      with Cons.prems False have "stopped (poll_round i rr s)"
        and "result_queries (out (poll_round i rr s)) = result_queries (out s)"
        by (rule poll_round_other)+
      with False nc show ?thesis by (simp add: poll_rounds_Cons poll_rounds_stopped)
    qed
  qed
qed

text \<open>
  C5 at a failing input. The interval fires again while the first progress request is
  still awaited; both requests then resolve with status \<open>'completed'\<close>. Each of the two
  suspended callbacks clears the interval and queries the result: the client issues
  two result queries for \<open>t1\<close>, where the claim says exactly one.
\<close>

theorem two_result_queries_when_polls_overlap:
  "result_queries (out (run (two_polls_in_flight @
       [Settle 4 (Resolved completed_progress), Settle 5 (Resolved completed_progress)]) init))
     = [JStr ''t1'', JStr ''t1'']"
  by (simp add: run_append after_two_polls_in_flight after_submit_t1 completed_progress_def
      eval_defs)

subsection \<open>A poll that fails\<close>

text \<open>What the \<open>catch\<close> of the callback does, whichever request it caught.\<close>

lemma poll_catch_resets:
  "error (poll_catch s) = JStr ''Failed to get progress'' \<and> \<not> polling (poll_catch s) \<and>
   \<not> isProcessing (poll_catch s) \<and> currentTaskId (poll_catch s) = JNull \<and>
   out (poll_catch s) = out s \<and> pending (poll_catch s) = pending s"
  using polling_poll_catch [of s] by (simp add: poll_catch_def clearInterval_ref_def)

lemma rejected_poll_is_caught: "poll_on_progress t (Rejected err) s = poll_catch s"
  by (simp add: poll_on_progress_def)

text \<open>
  When no other poll is in flight, a rejected poll ends the loop: no later round issues
  anything.
\<close>

lemma rejected_poll_ends_sequential_polling:
  assumes "idle i t s"
  shows "stopped (poll_round i (Rejected err, rr) s)"
    and "poll_rounds i rrs (poll_round i (Rejected err, rr) s) = poll_round i (Rejected err, rr) s"
    and "out (poll_round i (Rejected err, rr) s) = out s @ [GetProgress t]"
proof -
  show st: "stopped (poll_round i (Rejected err, rr) s)"
    using assms by (rule poll_round_other) simp_all
  then show "poll_rounds i rrs (poll_round i (Rejected err, rr) s)
      = poll_round i (Rejected err, rr) s"
    by (rule poll_rounds_stopped)
  show "out (poll_round i (Rejected err, rr) s) = out s @ [GetProgress t]"
    using assms by (simp add: idle_def poll_round_def handler_defs)
qed

text \<open>
  C8 at a failing input. Two polls of \<open>t1\<close> are in flight and the first is rejected:
  the client clears the interval and shows \<open>'Failed to get progress'\<close>. The second poll
  then resolves with status \<open>'completed'\<close>, and its callback issues a result query for
  \<open>t1\<close>, where the claim says that no further request is issued for that task.
\<close>

theorem result_query_after_failed_poll:
  "error (run (two_polls_in_flight @ [Settle 4 (Rejected network_error)]) init)
     = JStr ''Failed to get progress'' \<and>
   \<not> polling (run (two_polls_in_flight @ [Settle 4 (Rejected network_error)]) init) \<and>
   out (run (two_polls_in_flight @
          [Settle 4 (Rejected network_error), Settle 5 (Resolved completed_progress)]) init)
     = out (run two_polls_in_flight init) @
       [OnProgressUpdate completed_progress, GetResults (JStr ''t1'')]"
  by (simp add: run_append after_two_polls_in_flight after_submit_t1 completed_progress_def
      polling_def eval_defs)

subsection \<open>One task at a time\<close>

lemma processing_disables_both_buttons:
  "isProcessing s \<Longrightarrow> start_disabled s \<and> stop_disabled s"
  by (simp add: start_disabled_def stop_disabled_def)

lemma clicks_ignored_while_processing:
  "isProcessing s \<Longrightarrow> step ClickStart s = s \<and> step ClickStop s = s"
  by (simp add: start_disabled_def stop_disabled_def)

text \<open>
  Each end of a poll leaves the processing state and forgets the task: the result
  arrived, the status was \<open>'error'\<close>, or the poll failed.
\<close>

lemma result_arrival_resets:
  "\<not> isProcessing (poll_on_results t (Resolved body) s) \<and>
   currentTaskId (poll_on_results t (Resolved body) s) = JNull \<and>
   out (poll_on_results t (Resolved body) s) = out s @ [OnTranscriptionComplete body]"
  by (simp add: poll_on_results_def emit_def)

lemma upload_sets_task:
  "get_prop body ''task_id'' = Some t \<Longrightarrow>
   currentTaskId (processAudio_resume (Resolved body) s) = t \<and>
   isProcessing (processAudio_resume (Resolved body) s) = isProcessing s \<and>
   intervals (processAudio_resume (Resolved body) s) = intervals s @ [(next_id s, t)] \<and>
   progressIntervalRef (processAudio_resume (Resolved body) s) = Some (next_id s)"
  by (simp add: processAudio_resume_def pollProgress_def)

lemma after_stale_poll_run:
  "run stale_poll_run init =
     \<lparr>isRecording = False, isProcessing = False, currentTaskId = JStr ''t2'',
      error = JStr ''Error: no speech'', progressIntervalRef = Some 9,
      mediaRecorderRef = Some 7, audioChunksRef = [chunk1],
      intervals = [(9, JStr ''t2'')], pending = [], next_id = 10,
      out = out (run two_polls_in_flight init) @
            [GetUserMedia, NewMediaRecorder ''audio/webm;codecs=opus'', RecorderStop,
             PostTranscribe [(''file'', new_Blob [chunk1] ''audio/webm'', ''recording.webm'')],
             OnProgressUpdate error_progress]\<rparr>"
  by (simp add: stale_poll_run_def run_append after_two_polls_in_flight after_submit_t1
      error_progress_def network_error_def chunk1_def eval_defs)

text \<open>
  C10 at a failing input. A poll of \<open>t1\<close> that was still in flight when another poll of
  \<open>t1\<close> failed resolves while the next upload is under way, and clears the processing
  state. When that upload resolves with task \<open>t2\<close>, the client polls \<open>t2\<close> with
  \<open>currentTaskId\<close> set, yet it is not processing and the start button is enabled. The
  user records and uploads again: the interval of \<open>t2\<close> and the interval of \<open>t3\<close> are
  both set, and both tasks are polled, where the claim says that a second submission
  cannot be started while a task is in flight.
\<close>

theorem second_submission_while_task_in_flight:
  "currentTaskId (run stale_poll_run init) = JStr ''t2'' \<and>
   polling (run stale_poll_run init) \<and>
   \<not> isProcessing (run stale_poll_run init) \<and>
   \<not> start_disabled (run stale_poll_run init) \<and>
   intervals (run (stale_poll_run @ next_submission) init)
     = [(9, JStr ''t2''), (13, JStr ''t3'')] \<and>
   out (run (stale_poll_run @ next_submission) init)
     = out (run stale_poll_run init) @
       [GetUserMedia, NewMediaRecorder ''audio/webm;codecs=opus'', RecorderStop,
        PostTranscribe [(''file'', new_Blob [chunk1] ''audio/webm'', ''recording.webm'')],
        GetProgress (JStr ''t2''), GetProgress (JStr ''t3'')]"
  by (simp add: run_append after_stale_poll_run next_submission_def polling_def chunk1_def
      eval_defs)

section \<open>The upload and the task id\<close>

subsection \<open>What is uploaded\<close>

lemma posted_forms_append: "posted_forms (xs @ ys) = posted_forms xs @ posted_forms ys"
  by (induction xs rule: posted_forms.induct) simp_all

lemma from_chunks_mono: "from_chunks D f \<Longrightarrow> D \<subseteq> D' \<Longrightarrow> from_chunks D' f"
  unfolding from_chunks_def by blast

lemma chunks_ok_mono: "chunks_ok D s \<Longrightarrow> D \<subseteq> D' \<Longrightarrow> chunks_ok D' s"
  unfolding chunks_ok_def using from_chunks_mono by blast

lemma chunks_ok_same:
  "chunks_ok D s \<Longrightarrow> audioChunksRef s' = audioChunksRef s \<Longrightarrow>
   posted_forms (out s') = posted_forms (out s) \<Longrightarrow> chunks_ok D s'"
  by (simp add: chunks_ok_def)

lemma poll_on_progress_same:
  "audioChunksRef (poll_on_progress t r s) = audioChunksRef s"
  "posted_forms (out (poll_on_progress t r s)) = posted_forms (out s)"
  by (simp_all add: handler_defs Let_def posted_forms_append split: settled.split option.split)

lemma poll_on_results_same:
  "audioChunksRef (poll_on_results t r s) = audioChunksRef s"
  "posted_forms (out (poll_on_results t r s)) = posted_forms (out s)"
  by (simp_all add: handler_defs posted_forms_append split: settled.split)

lemma processAudio_resume_same:
  "audioChunksRef (processAudio_resume r s) = audioChunksRef s"
  "posted_forms (out (processAudio_resume r s)) = posted_forms (out s)"
  by (simp_all add: handler_defs split: settled.split option.split)

lemma resume_same:
  "audioChunksRef (resume k s) = audioChunksRef s"
  "out (resume k s) = out s"
  by (simp_all add: resume_def)

lemma step_Settle_same:
  "audioChunksRef (step (Settle k r) s) = audioChunksRef s"
  "posted_forms (out (step (Settle k r) s)) = posted_forms (out s)"
  by (simp_all add: poll_on_progress_same poll_on_results_same processAudio_resume_same resume_same
      split: option.split cont.split)

lemma chunks_ok_onstop: "chunks_ok D s \<Longrightarrow> chunks_ok D (onstop s)"
proof -
  assume ok: "chunks_ok D s"
  then have "from_chunks D [(''file'', new_Blob (audioChunksRef s) ''audio/webm'', ''recording.webm'')]"
    unfolding from_chunks_def chunks_ok_def by blast
  with ok show ?thesis
    by (simp add: chunks_ok_def onstop_def processAudio_def suspend_def emit_def posted_forms_append)
qed

lemma step_chunks_ok: "chunks_ok D s \<Longrightarrow> chunks_ok (D \<union> set (delivered [e])) (step e s)"
proof (cases e)
  case ClickStart
  assume "chunks_ok D s"
  then show ?thesis using ClickStart
    by (simp add: chunks_ok_def startRecording_def suspend_def emit_def posted_forms_append)
next
  case ClickStop
  assume "chunks_ok D s"
  then show ?thesis using ClickStop
    by (simp add: chunks_ok_def stopRecording_def emit_def posted_forms_append)
next
  case (MediaGranted k sup)
  assume "chunks_ok D s"
  then show ?thesis using MediaGranted
    by (simp add: chunks_ok_def startRecording_granted_def resume_def emit_def posted_forms_append)
next
  case (MediaDenied k)
  assume "chunks_ok D s"
  then show ?thesis using MediaDenied
    by (simp add: chunks_ok_def startRecording_catch_def resume_def)
next
  case (DataAvailable d)
  assume "chunks_ok D s"
  then have "chunks_ok (insert d D) s" by (rule chunks_ok_mono) auto
  then show ?thesis using DataAvailable
    by (auto simp: chunks_ok_def ondataavailable_def)
next
  case RecorderStopped
  assume "chunks_ok D s"
  then show ?thesis using RecorderStopped by (simp add: chunks_ok_onstop)
next
  case (TimerFire i)
  assume "chunks_ok D s"
  then show ?thesis using TimerFire
    by (simp add: chunks_ok_def poll_tick_def suspend_def emit_def posted_forms_append
        split: option.split)
next
  case (Settle k r)
  assume "chunks_ok D s"
  then show ?thesis unfolding Settle
    by (simp add: chunks_ok_def step_Settle_same del: step.simps)
qed

lemma delivered_Cons: "set (delivered (e # evs)) = set (delivered [e]) \<union> set (delivered evs)"
  by (cases e) auto

lemma run_chunks_ok: "chunks_ok D s \<Longrightarrow> chunks_ok (D \<union> set (delivered evs)) (run evs s)"
proof (induction evs arbitrary: D s)
  case Nil
  then show ?case by simp
next
  case (Cons e evs)
  from Cons.prems have "chunks_ok (D \<union> set (delivered [e])) (step e s)" by (rule step_chunks_ok)
  then have "chunks_ok (D \<union> set (delivered [e]) \<union> set (delivered evs)) (run evs (step e s))"
    by (rule Cons.IH)
  then show ?case by (simp add: delivered_Cons [of e evs] Un_assoc)
qed

lemma init_chunks_ok: "chunks_ok {} init" by (simp add: chunks_ok_def init_def)



text \<open>A chunk of size zero is dropped: the handler leaves the state as it is.\<close>

lemma empty_chunk_is_dropped: "blob_size d = 0 \<Longrightarrow> step (DataAvailable d) s = s"
  by (simp add: ondataavailable_def)

subsection \<open>Every query carries a task id the server returned\<close>

lemma query_ids_append: "query_ids (xs @ ys) = query_ids xs @ query_ids ys"
  by (induction xs rule: query_ids.induct) simp_all

lemma ids_ok_mono: "ids_ok n T s \<Longrightarrow> T \<subseteq> T' \<Longrightarrow> ids_ok n T' s"
  unfolding ids_ok_def by blast

lemma ids_ok_resume: "ids_ok n T s \<Longrightarrow> ids_ok n T (resume k s)"
  using conts_resume [of k s] by (auto simp: ids_ok_def resume_def conts_def)

lemma ids_ok_clearInterval_ref: "ids_ok n T s \<Longrightarrow> ids_ok n T (clearInterval_ref s)"
  by (auto simp: ids_ok_def clearInterval_ref_def conts_def)

lemma query_ids_drop_single: "set (query_ids (drop m [a])) \<subseteq> set (query_ids [a])"
  by (cases m) simp_all

lemma ids_ok_emit:
  assumes "ids_ok n T s" and "set (query_ids [a]) \<subseteq> T"
  shows "ids_ok n T (emit a s)"
proof -
  have "set (query_ids (drop n (out s @ [a]))) \<subseteq>
      set (query_ids (drop n (out s))) \<union> set (query_ids [a])"
    using query_ids_drop_single [of "n - length (out s)" a] by (auto simp: query_ids_append)
  with assms show ?thesis by (auto simp: ids_ok_def emit_def conts_def)
qed

lemma ids_ok_suspend:
  "ids_ok n T s \<Longrightarrow> (\<forall>t. c = AfterProgress t \<or> c = AfterResults t \<longrightarrow> t \<in> T) \<Longrightarrow>
   ids_ok n T (suspend c s)"
  by (auto simp: ids_ok_def suspend_def conts_def)

lemma ids_ok_fields:
  "ids_ok n T s \<Longrightarrow> intervals s' = intervals s \<Longrightarrow> pending s' = pending s \<Longrightarrow> out s' = out s \<Longrightarrow>
   ids_ok n T s'"
  by (simp add: ids_ok_def conts_def)

lemma ids_ok_poll_catch: "ids_ok n T s \<Longrightarrow> ids_ok n T (poll_catch s)"
  by (rule ids_ok_fields [OF ids_ok_clearInterval_ref]) (simp_all add: poll_catch_def)

lemma ids_ok_poll_on_progress:
  assumes "ids_ok n T s" and "t \<in> T"
  shows "ids_ok n T (poll_on_progress t r s)"
proof (cases r)
  case (Rejected err)
  with assms show ?thesis by (simp add: poll_on_progress_def ids_ok_poll_catch)
next
  case (Resolved p)
  have s1: "ids_ok n T (emit (OnProgressUpdate p) s)" using assms(1) by (rule ids_ok_emit) simp
  then have c: "ids_ok n T (clearInterval_ref (emit (OnProgressUpdate p) s))"
    by (rule ids_ok_clearInterval_ref)
  have e: "ids_ok n T ((clearInterval_ref (emit (OnProgressUpdate p) s))
      \<lparr>error := x, isProcessing := False, currentTaskId := JNull\<rparr>)" for x
    by (rule ids_ok_fields [OF c]) simp_all
  have g: "ids_ok n T (suspend (AfterResults t) (emit (GetResults t)
      (clearInterval_ref (emit (OnProgressUpdate p) s))))"
    using assms(2) by (intro ids_ok_suspend ids_ok_emit c) simp_all
  show ?thesis using Resolved s1 e g
    by (simp add: poll_on_progress_def Let_def ids_ok_poll_catch split: option.split)
qed

lemma ids_ok_poll_on_results:
  assumes "ids_ok n T s"
  shows "ids_ok n T (poll_on_results t r s)"
proof (cases r)
  case (Rejected err)
  with assms show ?thesis by (simp add: poll_on_results_def ids_ok_poll_catch)
next
  case (Resolved body)
  have "ids_ok n T (emit (OnTranscriptionComplete body) s)" using assms by (rule ids_ok_emit) simp
  then have "ids_ok n T ((emit (OnTranscriptionComplete body) s)
      \<lparr>isProcessing := False, currentTaskId := JNull\<rparr>)"
    by (rule ids_ok_fields) simp_all
  with Resolved show ?thesis by (simp add: poll_on_results_def)
qed

lemma ids_ok_processAudio_catch:
  assumes "ids_ok n T s"
  shows "ids_ok n T (processAudio_catch err s)"
proof (cases "get_prop err ''response''")
  case None
  with assms show ?thesis by (simp add: processAudio_catch_def)
next
  case (Some r)
  have "ids_ok n T (s\<lparr>error := x, isProcessing := False\<rparr>)" for x
    by (rule ids_ok_fields [OF assms]) simp_all
  with Some show ?thesis by (simp add: processAudio_catch_def)
qed

lemma ids_ok_pollProgress: "ids_ok n T s \<Longrightarrow> ids_ok n (insert t T) (pollProgress t (s\<lparr>currentTaskId := t\<rparr>))"
  by (auto simp: ids_ok_def pollProgress_def conts_def)

lemma ids_ok_processAudio_resume:
  assumes "ids_ok n T s"
  shows "ids_ok n (T \<union> (case r of Rejected err \<Rightarrow> {}
            | Resolved body \<Rightarrow> (case get_prop body ''task_id'' of None \<Rightarrow> {} | Some t \<Rightarrow> {t})))
          (processAudio_resume r s)"
  using assms
  by (auto simp: processAudio_resume_def ids_ok_processAudio_catch
      split: settled.split option.split dest: ids_ok_pollProgress)

lemma step_ids_ok: "ids_ok n T s \<Longrightarrow> ids_ok n (T \<union> set (returned_ids [e] s)) (step e s)"
proof (cases e)
  case ClickStart
  assume ok: "ids_ok n T s"
  have "ids_ok n T (startRecording s)"
    unfolding startRecording_def using ok by (intro ids_ok_suspend ids_ok_emit) simp_all
  with ok show ?thesis using ClickStart by simp
next
  case ClickStop
  assume "ids_ok n T s"
  then have "ids_ok n T (emit RecorderStop s)" by (rule ids_ok_emit) simp
  then have "ids_ok n T ((emit RecorderStop s)\<lparr>isRecording := False\<rparr>)"
    by (rule ids_ok_fields) simp_all
  with \<open>ids_ok n T s\<close> show ?thesis using ClickStop by (simp add: stopRecording_def)
next
  case (MediaGranted k sup)
  assume "ids_ok n T s"
  then have "ids_ok n T (resume k s)" by (rule ids_ok_resume)
  then have "ids_ok n T ((resume k s)\<lparr>mediaRecorderRef := Some (next_id (resume k s)),
      audioChunksRef := [], next_id := Suc (next_id (resume k s))\<rparr>)"
    by (rule ids_ok_fields) simp_all
  then have "ids_ok n T (emit (NewMediaRecorder x)
      ((resume k s)\<lparr>mediaRecorderRef := Some (next_id (resume k s)),
      audioChunksRef := [], next_id := Suc (next_id (resume k s))\<rparr>))" for x
    by (rule ids_ok_emit) simp
  then have "ids_ok n T (startRecording_granted sup (resume k s))"
    unfolding startRecording_granted_def by (rule ids_ok_fields) (simp_all add: emit_def)
  with \<open>ids_ok n T s\<close> show ?thesis using MediaGranted by simp
next
  case (MediaDenied k)
  assume "ids_ok n T s"
  then have "ids_ok n T (resume k s)" by (rule ids_ok_resume)
  then have "ids_ok n T (startRecording_catch (resume k s))"
    by (rule ids_ok_fields) (simp_all add: startRecording_catch_def)
  with \<open>ids_ok n T s\<close> show ?thesis using MediaDenied by simp
next
  case (DataAvailable d)
  assume ok: "ids_ok n T s"
  have "ids_ok n T (s\<lparr>audioChunksRef := x\<rparr>)" for x
    by (rule ids_ok_fields [OF ok]) simp_all
  with ok show ?thesis using DataAvailable by (simp add: ondataavailable_def)
next
  case RecorderStopped
  assume ok: "ids_ok n T s"
  have "ids_ok n T (s\<lparr>isProcessing := True, error := JNull\<rparr>)"
    by (rule ids_ok_fields [OF ok]) simp_all
  then have "ids_ok n T (onstop s)"
    unfolding onstop_def processAudio_def by (intro ids_ok_suspend ids_ok_emit) simp_all
  with ok show ?thesis using RecorderStopped by simp
next
  case (TimerFire i)
  assume ok: "ids_ok n T s"
  show ?thesis
  proof (cases "map_of (intervals s) i")
    case None
    with ok TimerFire show ?thesis by simp
  next
    case (Some t)
    then have "(i, t) \<in> set (intervals s)" by (rule map_of_SomeD)
    with ok have "t \<in> T" by (force simp: ids_ok_def)
    then have "ids_ok n T (poll_tick t s)"
      unfolding poll_tick_def using ok by (intro ids_ok_suspend ids_ok_emit) simp_all
    with Some TimerFire show ?thesis by simp
  qed
next
  case (Settle k r)
  assume ok: "ids_ok n T s"
  then have res: "ids_ok n T (resume k s)" by (rule ids_ok_resume)
  show ?thesis
  proof (cases "map_of (pending s) k")
    case None
    with ok Settle show ?thesis by (cases r) simp_all
  next
    case (Some c)
    then have c: "c \<in> conts s" by (rule pending_in_conts)
    show ?thesis
    proof (cases c)
      case AfterGetUserMedia
      with ok Settle Some show ?thesis by (cases r) simp_all
    next
      case AfterPost
      have "returned_ids [e] s = (case r of Rejected err \<Rightarrow> []
            | Resolved body \<Rightarrow> (case get_prop body ''task_id'' of None \<Rightarrow> [] | Some t \<Rightarrow> [t]))"
        using Settle Some AfterPost by (cases r) simp_all
      then have "T \<union> set (returned_ids [e] s) = T \<union> (case r of Rejected err \<Rightarrow> {}
            | Resolved body \<Rightarrow> (case get_prop body ''task_id'' of None \<Rightarrow> {} | Some t \<Rightarrow> {t}))"
        by (simp split: settled.split option.split)
      with ids_ok_processAudio_resume [OF res, of r] show ?thesis
        using Settle Some AfterPost by simp
    next
      case (AfterProgress t)
      with c ok have "t \<in> T" by (simp add: ids_ok_def)
      with res have "ids_ok n T (poll_on_progress t r (resume k s))" by (rule ids_ok_poll_on_progress)
      then have "ids_ok n (T \<union> set (returned_ids [e] s)) (poll_on_progress t r (resume k s))"
        by (rule ids_ok_mono) simp
      then show ?thesis using Settle Some AfterProgress by simp
    next
      case (AfterResults t)
      from res have "ids_ok n T (poll_on_results t r (resume k s))" by (rule ids_ok_poll_on_results)
      then have "ids_ok n (T \<union> set (returned_ids [e] s)) (poll_on_results t r (resume k s))"
        by (rule ids_ok_mono) simp
      then show ?thesis using Settle Some AfterResults by simp
    qed
  qed
qed

lemma returned_ids_Cons:
  "set (returned_ids (e # evs) s) = set (returned_ids [e] s) \<union> set (returned_ids evs (step e s))"
proof (cases e)
  case (Settle k r)
  show ?thesis
  proof (cases r)
    case (Resolved body)
    show ?thesis unfolding Settle Resolved
      by (simp only: returned_ids.simps set_append append_Nil2)
  next
    case (Rejected err)
    show ?thesis unfolding Settle Rejected by simp
  qed
qed simp_all

lemma run_ids_ok: "ids_ok n T s \<Longrightarrow> ids_ok n (T \<union> set (returned_ids evs s)) (run evs s)"
proof (induction evs arbitrary: T s)
  case Nil
  then show ?case by simp
next
  case (Cons e evs)
  from Cons.prems have "ids_ok n (T \<union> set (returned_ids [e] s)) (step e s)" by (rule step_ids_ok)
  then have "ids_ok n (T \<union> set (returned_ids [e] s) \<union> set (returned_ids evs (step e s)))
      (run evs (step e s))" by (rule Cons.IH)
  then show ?case by (simp add: returned_ids_Cons [of e evs s] Un_assoc)
qed

lemma init_ids_ok: "ids_ok 0 {} init" by (simp add: ids_ok_def init_def conts_def)

subsection \<open>Handles are fresh\<close>

lemma fresh_fields:
  "fresh s \<Longrightarrow> pending s' = pending s \<Longrightarrow> intervals s' = intervals s \<Longrightarrow>
   next_id s \<le> next_id s' \<Longrightarrow> fresh s'"
  by (fastforce simp: fresh_def)

lemma fresh_emit: "fresh s \<Longrightarrow> fresh (emit a s)"
  by (erule fresh_fields) (simp_all add: emit_def)

lemma fresh_suspend: "fresh s \<Longrightarrow> fresh (suspend c s)"
  by (fastforce simp: fresh_def suspend_def)

lemma fresh_resume: "fresh s \<Longrightarrow> fresh (resume k s)"
  by (fastforce simp: fresh_def resume_def)

lemma fresh_clearInterval_ref: "fresh s \<Longrightarrow> fresh (clearInterval_ref s)"
  by (fastforce simp: fresh_def clearInterval_ref_def)

lemma fresh_poll_catch: "fresh s \<Longrightarrow> fresh (poll_catch s)"
  by (drule fresh_clearInterval_ref, erule fresh_fields) (simp_all add: poll_catch_def)

lemma fresh_pollProgress: "fresh s \<Longrightarrow> fresh (pollProgress t s)"
  by (fastforce simp: fresh_def pollProgress_def)

lemma next_id_processAudio_catch [simp]: "next_id (processAudio_catch err s) = next_id s"
  by (simp add: processAudio_catch_def split: option.split)

lemma fresh_processAudio_catch: "fresh s \<Longrightarrow> fresh (processAudio_catch err s)"
  by (erule fresh_fields) simp_all

lemma fresh_processAudio_resume: "fresh s \<Longrightarrow> fresh (processAudio_resume r s)"
proof -
  assume f: "fresh s"
  have "fresh (s\<lparr>currentTaskId := t\<rparr>)" for t by (rule fresh_fields [OF f]) simp_all
  then show ?thesis
    using f by (simp add: processAudio_resume_def fresh_processAudio_catch fresh_pollProgress
        split: settled.split option.split)
qed

lemma fresh_poll_on_progress: "fresh s \<Longrightarrow> fresh (poll_on_progress t r s)"
proof -
  assume f: "fresh s"
  have e: "fresh (emit a s)" for a using f by (rule fresh_emit)
  have c: "fresh (clearInterval_ref (emit a s))" for a
    using e by (rule fresh_clearInterval_ref)
  have x: "fresh ((clearInterval_ref (emit a s))
      \<lparr>error := m, isProcessing := False, currentTaskId := JNull\<rparr>)" for a m
    by (rule fresh_fields [OF c [of a]]) simp_all
  have g: "fresh (suspend k (emit b (clearInterval_ref (emit a s))))" for a b k
    by (intro fresh_suspend fresh_emit c)
  show ?thesis
    using f e x g
    by (simp add: poll_on_progress_def Let_def fresh_poll_catch
        split: settled.split option.split)
qed

lemma fresh_poll_on_results: "fresh s \<Longrightarrow> fresh (poll_on_results t r s)"
proof -
  assume f: "fresh s"
  have "fresh ((emit a s)\<lparr>isProcessing := False, currentTaskId := JNull\<rparr>)" for a
    by (rule fresh_fields [OF fresh_emit [OF f, of a]]) simp_all
  then show ?thesis
    using f by (simp add: poll_on_results_def fresh_poll_catch split: settled.split)
qed

lemma step_fresh: "fresh s \<Longrightarrow> fresh (step e s)"
proof (cases e)
  case ClickStart
  assume f: "fresh s"
  have "fresh (startRecording s)"
    unfolding startRecording_def by (intro fresh_suspend fresh_emit f)
  with f ClickStart show ?thesis by simp
next
  case ClickStop
  assume f: "fresh s"
  have "fresh ((emit RecorderStop s)\<lparr>isRecording := False\<rparr>)"
    by (rule fresh_fields [OF fresh_emit [OF f, of RecorderStop]]) simp_all
  with f ClickStop show ?thesis by (simp add: stopRecording_def)
next
  case (MediaGranted k sup)
  assume f: "fresh s"
  have "fresh (startRecording_granted sup (resume k s))"
    by (rule fresh_fields [OF fresh_resume [OF f, of k]])
       (simp_all add: startRecording_granted_def emit_def)
  with f MediaGranted show ?thesis by simp
next
  case (MediaDenied k)
  assume f: "fresh s"
  have "fresh (startRecording_catch (resume k s))"
    by (rule fresh_fields [OF fresh_resume [OF f, of k]]) (simp_all add: startRecording_catch_def)
  with f MediaDenied show ?thesis by simp
next
  case (DataAvailable d)
  assume f: "fresh s"
  have "fresh (ondataavailable d s)"
    by (rule fresh_fields [OF f]) (simp_all add: ondataavailable_def)
  with f DataAvailable show ?thesis by simp
next
  case RecorderStopped
  assume f: "fresh s"
  have "fresh (s\<lparr>isProcessing := True, error := JNull\<rparr>)"
    by (rule fresh_fields [OF f]) simp_all
  then have "fresh (onstop s)"
    unfolding onstop_def processAudio_def by (intro fresh_suspend fresh_emit)
  with f RecorderStopped show ?thesis by simp
next
  case (TimerFire i)
  assume f: "fresh s"
  have "fresh (poll_tick t s)" for t
    unfolding poll_tick_def by (intro fresh_suspend fresh_emit f)
  with f TimerFire show ?thesis by (simp split: option.split)
next
  case (Settle k r)
  assume f: "fresh s"
  then have "fresh (resume k s)" by (rule fresh_resume)
  with f Settle show ?thesis
    by (simp add: fresh_processAudio_resume fresh_poll_on_progress fresh_poll_on_results
        split: option.split cont.split)
qed

lemma run_fresh: "fresh s \<Longrightarrow> fresh (run evs s)"
  by (induction evs arbitrary: s) (simp_all add: step_fresh)

lemma init_fresh: "fresh init"
  by (simp add: fresh_def init_def)

lemma fresh_pending: "fresh s \<Longrightarrow> map_of (pending s) (next_id s) = None"
  by (force simp: fresh_def map_of_eq_None_iff)

lemma fresh_intervals: "fresh s \<Longrightarrow> map_of (intervals s) (next_id s) = None"
  by (force simp: fresh_def map_of_eq_None_iff)


subsection \<open>The queries of one job\<close>

lemma map_of_filter_other:
  "map_of (filter (\<lambda>(i, c). i \<noteq> k) xs) k' = (if k' = k then None else map_of xs k')"
  by (induction xs) auto

lemma map_of_filter_ref:
  "map_of (filter (\<lambda>(i, t). Some i \<noteq> r) xs) j = (if Some j = r then None else map_of xs j)"
  by (induction xs) auto

lemma map_of_snoc:
  "map_of (xs @ [(n, c)]) k =
     (case map_of xs k of None \<Rightarrow> (if k = n then Some c else None) | Some v \<Rightarrow> Some v)"
  by (induction xs) auto

lemma job_fields:
  "job_inv i t K s \<Longrightarrow> pending s' = pending s \<Longrightarrow> intervals s' = intervals s \<Longrightarrow>
   next_id s \<le> next_id s' \<Longrightarrow> job_inv i t K s'"
  by (fastforce simp: job_inv_def)

lemma job_emit: "job_inv i t K s \<Longrightarrow> job_inv i t K (emit a s)"
  by (erule job_fields) (simp_all add: emit_def)

lemma job_resume: "job_inv i t K s \<Longrightarrow> job_inv i t K (resume k s)"
  by (simp add: job_inv_def resume_def map_of_filter_other)

lemma job_clearInterval_ref: "job_inv i t K s \<Longrightarrow> job_inv i t K (clearInterval_ref s)"
  by (simp add: job_inv_def clearInterval_ref_def map_of_filter_ref)

lemma job_suspend: "job_inv i t K s \<Longrightarrow> job_inv i t K (suspend c s)"
  by (fastforce simp: job_inv_def suspend_def map_of_snoc split: option.split)

lemma job_suspend_own:
  assumes "fresh s" and "job_inv i t K s" and "c = AfterProgress t \<or> c = AfterResults t"
  shows "job_inv i t (K @ [next_id s]) (suspend c s)"
proof -
  from assms(2) have "job_inv i t K (suspend c s)" by (rule job_suspend)
  moreover have "map_of (pending (suspend c s)) (next_id s) = Some c"
    using fresh_pending [OF assms(1)] by (simp add: suspend_def map_add_def)
  moreover have "next_id s < next_id (suspend c s)" by (simp add: suspend_def)
  ultimately show ?thesis using assms(3) by (auto simp: job_inv_def)
qed

lemma job_pollProgress: "job_inv i t K s \<Longrightarrow> job_inv i t K (pollProgress t' s)"
  by (fastforce simp: job_inv_def pollProgress_def map_of_snoc split: option.split)

lemma job_poll_catch: "job_inv i t K s \<Longrightarrow> job_inv i t K (poll_catch s)"
  by (drule job_clearInterval_ref, erule job_fields) (simp_all add: poll_catch_def)

lemma job_processAudio_catch: "job_inv i t K s \<Longrightarrow> job_inv i t K (processAudio_catch err s)"
  by (erule job_fields) simp_all

lemma job_processAudio_resume:
  assumes "job_inv i t K s"
  shows "job_inv i t K (processAudio_resume r s)"
proof -
  have "job_inv i t K (s\<lparr>currentTaskId := x\<rparr>)" for x
    by (rule job_fields [OF assms]) simp_all
  then show ?thesis
    using assms by (simp add: processAudio_resume_def job_processAudio_catch job_pollProgress
        split: settled.split option.split)
qed

lemma job_poll_on_progress:
  assumes "job_inv i t K s"
  shows "job_inv i t K (poll_on_progress t' r s)"
proof -
  have e: "job_inv i t K (emit a s)" for a using assms by (rule job_emit)
  have c: "job_inv i t K (clearInterval_ref (emit a s))" for a
    using e by (rule job_clearInterval_ref)
  have x: "job_inv i t K ((clearInterval_ref (emit a s))
      \<lparr>error := m, isProcessing := False, currentTaskId := JNull\<rparr>)" for a m
    by (rule job_fields [OF c [of a]]) simp_all
  have g: "job_inv i t K (suspend k (emit b (clearInterval_ref (emit a s))))" for a b k
    by (intro job_suspend job_emit c)
  show ?thesis
    using assms e x g
    by (simp add: poll_on_progress_def Let_def job_poll_catch
        split: settled.split option.split)
qed

lemma job_poll_on_results:
  assumes "job_inv i t K s"
  shows "job_inv i t K (poll_on_results t' r s)"
proof -
  have "job_inv i t K ((emit a s)\<lparr>isProcessing := False, currentTaskId := JNull\<rparr>)" for a
    by (rule job_fields [OF job_emit [OF assms, of a]]) simp_all
  then show ?thesis
    using assms by (simp add: poll_on_results_def job_poll_catch split: settled.split)
qed

text \<open>An event of another job, or of the recorder, leaves the job as it is.\<close>

lemma step_job_other:
  assumes "job_inv i t K s" and "\<not> job_event i K e"
  shows "job_inv i t K (step e s)"
proof (cases e)
  case ClickStart
  have "job_inv i t K (startRecording s)"
    unfolding startRecording_def by (intro job_suspend job_emit assms(1))
  with assms(1) ClickStart show ?thesis by simp
next
  case ClickStop
  have "job_inv i t K ((emit RecorderStop s)\<lparr>isRecording := False\<rparr>)"
    by (rule job_fields [OF job_emit [OF assms(1), of RecorderStop]]) simp_all
  with assms(1) ClickStop show ?thesis by (simp add: stopRecording_def)
next
  case (MediaGranted k sup)
  have "job_inv i t K (startRecording_granted sup (resume k s))"
    by (rule job_fields [OF job_resume [OF assms(1), of k]])
       (simp_all add: startRecording_granted_def emit_def)
  with assms(1) MediaGranted show ?thesis by simp
next
  case (MediaDenied k)
  have "job_inv i t K (startRecording_catch (resume k s))"
    by (rule job_fields [OF job_resume [OF assms(1), of k]])
       (simp_all add: startRecording_catch_def)
  with assms(1) MediaDenied show ?thesis by simp
next
  case (DataAvailable d)
  have "job_inv i t K (ondataavailable d s)"
    by (rule job_fields [OF assms(1)]) (simp_all add: ondataavailable_def)
  with assms(1) DataAvailable show ?thesis by simp
next
  case RecorderStopped
  have "job_inv i t K (s\<lparr>isProcessing := True, error := JNull\<rparr>)"
    by (rule job_fields [OF assms(1)]) simp_all
  then have "job_inv i t K (onstop s)"
    unfolding onstop_def processAudio_def by (intro job_suspend job_emit)
  with assms(1) RecorderStopped show ?thesis by simp
next
  case (TimerFire j)
  have "job_inv i t K (poll_tick t' s)" for t'
    unfolding poll_tick_def by (intro job_suspend job_emit assms(1))
  with assms(1) TimerFire show ?thesis by (simp split: option.split)
next
  case (Settle k r)
  from assms(1) have "job_inv i t K (resume k s)" by (rule job_resume)
  with assms(1) Settle show ?thesis
    by (simp add: job_processAudio_resume job_poll_on_progress job_poll_on_results
        split: option.split cont.split)
qed

text \<open>A tick of the job's interval queries the progress of its task.\<close>

lemma job_tick:
  assumes "fresh s" and "job_inv i t K s"
  shows "set (query_ids (new_out (TimerFire i) s)) \<subseteq> {t} \<and>
         job_inv i t (K @ new_handles (TimerFire i) s) (step (TimerFire i) s)"
proof (cases "map_of (intervals s) i")
  case None
  with assms(2) show ?thesis by (simp add: new_out_def new_handles_def)
next
  case (Some t')
  with assms(2) have t': "t' = t" by (simp add: job_inv_def)
  have st: "step (TimerFire i) s = suspend (AfterProgress t) (emit (GetProgress t) s)"
    using Some t' by (simp add: poll_tick_def)
  have f: "fresh (emit (GetProgress t) s)" using assms(1) by (rule fresh_emit)
  have j: "job_inv i t K (emit (GetProgress t) s)" using assms(2) by (rule job_emit)
  have "job_inv i t (K @ [next_id (emit (GetProgress t) s)])
      (suspend (AfterProgress t) (emit (GetProgress t) s))"
    using f j by (rule job_suspend_own) simp
  moreover have "new_handles (TimerFire i) s = [next_id s]"
    unfolding new_handles_def st by (simp add: suspend_def emit_def)
  moreover have "new_out (TimerFire i) s = [GetProgress t]"
    unfolding new_out_def st by (simp add: suspend_def emit_def)
  ultimately show ?thesis unfolding st by (simp add: emit_def)
qed

text \<open>The reply to a progress request of the job; the result query, if any, is for its task.\<close>

lemma job_progress_reply:
  assumes "fresh s" and "job_inv i t K s"
  shows "set (query_ids (drop (length (out s)) (out (poll_on_progress t r s)))) \<subseteq> {t} \<and>
         job_inv i t (K @ [next_id s ..< next_id (poll_on_progress t r s)])
           (poll_on_progress t r s)"
proof (cases "observes_completed r")
  case False
  have "query_ids (drop (length (out s)) (out (poll_on_progress t r s))) = [] \<and>
      next_id (poll_on_progress t r s) = next_id s"
  proof (cases r)
    case (Rejected err)
    then show ?thesis by (simp add: poll_on_progress_def poll_catch_def clearInterval_ref_def)
  next
    case (Resolved p)
    with False have "get_prop p ''status'' \<noteq> Some (JStr ''completed'')" by simp
    with Resolved show ?thesis
      by (simp add: poll_on_progress_def poll_catch_def clearInterval_ref_def emit_def Let_def
          split: option.split)
  qed
  then have o: "query_ids (drop (length (out s)) (out (poll_on_progress t r s))) = []"
    and n: "next_id (poll_on_progress t r s) = next_id s" by blast+
  from assms(2) have "job_inv i t K (poll_on_progress t r s)" by (rule job_poll_on_progress)
  with o n show ?thesis by simp
next
  case True
  then obtain p where r: "r = Resolved p" and p: "get_prop p ''status'' = Some (JStr ''completed'')"
    by (cases r) auto
  let ?c = "emit (GetResults t) (clearInterval_ref (emit (OnProgressUpdate p) s))"
  have st: "poll_on_progress t r s = suspend (AfterResults t) ?c"
    using r p by (simp add: poll_on_progress_def Let_def)
  have f: "fresh ?c" by (intro fresh_emit fresh_clearInterval_ref assms(1))
  have j: "job_inv i t K ?c" by (intro job_emit job_clearInterval_ref assms(2))
  have n: "next_id ?c = next_id s" by (simp add: emit_def clearInterval_ref_def)
  have "job_inv i t (K @ [next_id ?c]) (suspend (AfterResults t) ?c)"
    using f j by (rule job_suspend_own) simp
  moreover have "[next_id s ..< next_id (suspend (AfterResults t) ?c)] = [next_id s]"
    by (simp add: suspend_def n)
  moreover have "drop (length (out s)) (out (suspend (AfterResults t) ?c))
      = [OnProgressUpdate p, GetResults t]"
    by (simp add: suspend_def emit_def clearInterval_ref_def)
  ultimately show ?thesis unfolding st n by simp
qed

lemma job_result_reply:
  assumes "job_inv i t K s"
  shows "query_ids (drop (length (out s)) (out (poll_on_results t r s))) = [] \<and>
         next_id (poll_on_results t r s) = next_id s \<and>
         job_inv i t K (poll_on_results t r s)"
  using job_poll_on_results [OF assms, of t r]
  by (simp add: poll_on_results_def poll_catch_def clearInterval_ref_def emit_def
      split: settled.split)

lemma job_settle:
  assumes "fresh s" and "job_inv i t K s" and "k \<in> set K"
  shows "set (query_ids (new_out (Settle k r) s)) \<subseteq> {t} \<and>
         job_inv i t (K @ new_handles (Settle k r) s) (step (Settle k r) s)"
proof -
  from assms(2,3) consider "map_of (pending s) k = None"
    | "map_of (pending s) k = Some (AfterProgress t)"
    | "map_of (pending s) k = Some (AfterResults t)"
    by (auto simp: job_inv_def)
  then show ?thesis
  proof cases
    case 1
    with assms(2) show ?thesis by (simp add: new_out_def new_handles_def)
  next
    case 2
    have f: "fresh (resume k s)" using assms(1) by (rule fresh_resume)
    have j: "job_inv i t K (resume k s)" using assms(2) by (rule job_resume)
    have st: "step (Settle k r) s = poll_on_progress t r (resume k s)" using 2 by simp
    from job_progress_reply [OF f j, of r] show ?thesis
      unfolding new_out_def new_handles_def st by (simp add: resume_def)
  next
    case 3
    have j: "job_inv i t K (resume k s)" using assms(2) by (rule job_resume)
    have st: "step (Settle k r) s = poll_on_results t r (resume k s)" using 3 by simp
    from job_result_reply [OF j, of r] show ?thesis
      unfolding new_out_def new_handles_def st by (simp add: resume_def)
  qed
qed

lemma step_job_own:
  assumes "fresh s" and "job_inv i t K s" and "job_event i K e"
  shows "set (query_ids (new_out e s)) \<subseteq> {t} \<and>
         job_inv i t (K @ new_handles e s) (step e s)"
proof (cases e)
  case (TimerFire j)
  with assms(3) have "e = TimerFire i" by simp
  with job_tick [OF assms(1,2)] show ?thesis by simp
next
  case (Settle k r)
  with assms(3) have "k \<in> set K" by simp
  with assms(1,2) show ?thesis unfolding Settle by (rule job_settle)
qed (use assms(3) in simp_all)

lemma run_job_queries:
  assumes "fresh s" and "job_inv i t K s"
  shows "set (job_queries i K evs s) \<subseteq> {t}"
  using assms
proof (induction evs arbitrary: K s)
  case Nil
  then show ?case by simp
next
  case (Cons e evs)
  have f: "fresh (step e s)" using Cons.prems(1) by (rule step_fresh)
  show ?case
  proof (cases "job_event i K e")
    case True
    note st = step_job_own [OF Cons.prems True]
    from st have "job_inv i t (K @ new_handles e s) (step e s)" by blast
    with f have "set (job_queries i (K @ new_handles e s) evs (step e s)) \<subseteq> {t}"
      by (rule Cons.IH)
    with st True show ?thesis by simp
  next
    case False
    with Cons.prems(2) have "job_inv i t K (step e s)" by (rule step_job_other)
    with f have "set (job_queries i K evs (step e s)) \<subseteq> {t}" by (rule Cons.IH)
    with False show ?thesis by simp
  qed
qed

text \<open>The reply to the upload starts the job of the task it names.\<close>

lemma upload_starts_job:
  assumes "fresh s" and "map_of (pending s) k = Some AfterPost"
    and "get_prop body ''task_id'' = Some t"
  shows "currentTaskId (step (Settle k (Resolved body)) s) = t"
    and "progressIntervalRef (step (Settle k (Resolved body)) s) = Some (next_id s)"
    and "map_of (intervals (step (Settle k (Resolved body)) s)) (next_id s) = Some t"
    and "job_inv (next_id s) t [] (step (Settle k (Resolved body)) s)"
proof -
  let ?s' = "step (Settle k (Resolved body)) s"
  have st: "?s' = pollProgress t ((resume k s)\<lparr>currentTaskId := t\<rparr>)"
    using assms(2,3) by (simp add: processAudio_resume_def)
  show "currentTaskId ?s' = t" and "progressIntervalRef ?s' = Some (next_id s)"
    unfolding st by (simp_all add: pollProgress_def resume_def)
  show m: "map_of (intervals ?s') (next_id s) = Some t"
    unfolding st using fresh_intervals [OF assms(1)]
    by (simp add: pollProgress_def resume_def map_add_def)
  have "next_id ?s' = Suc (next_id s)" unfolding st by (simp add: pollProgress_def resume_def)
  with m show "job_inv (next_id s) t [] ?s'" by (simp add: job_inv_def)
qed


lemma after_second_upload:
  "run second_upload init =
     (run stale_poll_run init)
       \<lparr>isProcessing := True, error := JNull, mediaRecorderRef := Some 11,
        pending := [(12, AfterPost)], next_id := 13,
        out := out (run stale_poll_run init) @
          [GetUserMedia, NewMediaRecorder ''audio/webm;codecs=opus'', RecorderStop,
           PostTranscribe [(''file'', new_Blob [chunk1] ''audio/webm'', ''recording.webm'')]]\<rparr>"
  by (simp add: second_upload_def run_append after_stale_poll_run chunk1_def eval_defs)

lemma after_third_task:
  "step (Settle 12 (Resolved (JObj [(''task_id'', JStr ''t3'')]))) (run second_upload init) =
     (run second_upload init)
       \<lparr>currentTaskId := JStr ''t3'', progressIntervalRef := Some 13,
        intervals := [(9, JStr ''t2''), (13, JStr ''t3'')], pending := [], next_id := 14\<rparr>"
  by (simp add: after_second_upload after_stale_poll_run eval_defs)

subsection \<open>The upload that is answered\<close>

lemma posted_ok_same:
  "posted_ok s \<Longrightarrow> (AfterPost \<in> conts s' \<Longrightarrow> AfterPost \<in> conts s) \<Longrightarrow>
   posted_forms (out s') = posted_forms (out s) \<Longrightarrow> posted_ok s'"
  by (auto simp: posted_ok_def)

lemma conts_processAudio_resume: "conts (processAudio_resume r s) = conts s"
  by (simp add: conts_def processAudio_resume_def pollProgress_def
      split: settled.split option.split)

lemma step_posted_ok: "posted_ok s \<Longrightarrow> posted_ok (step e s)"
proof (cases e)
  case ClickStart
  assume ok: "posted_ok s"
  have "posted_ok (startRecording s)"
    by (rule posted_ok_same [OF ok])
       (simp_all add: startRecording_def suspend_def emit_def conts_def posted_forms_append)
  with ok ClickStart show ?thesis by simp
next
  case ClickStop
  assume ok: "posted_ok s"
  have "posted_ok (stopRecording s)"
    by (rule posted_ok_same [OF ok])
       (auto simp: stopRecording_def emit_def conts_def posted_forms_append split: if_splits)
  with ok ClickStop show ?thesis by simp
next
  case (MediaGranted k sup)
  assume ok: "posted_ok s"
  have "posted_ok (startRecording_granted sup (resume k s))"
    by (rule posted_ok_same [OF ok])
       (auto simp: startRecording_granted_def emit_def conts_def resume_def posted_forms_append)
  with ok MediaGranted show ?thesis by simp
next
  case (MediaDenied k)
  assume ok: "posted_ok s"
  have "posted_ok (startRecording_catch (resume k s))"
    by (rule posted_ok_same [OF ok])
       (auto simp: startRecording_catch_def conts_def resume_def)
  with ok MediaDenied show ?thesis by simp
next
  case (DataAvailable d)
  assume ok: "posted_ok s"
  have "posted_ok (ondataavailable d s)"
    by (rule posted_ok_same [OF ok]) (auto simp: ondataavailable_def conts_def split: if_splits)
  with ok DataAvailable show ?thesis by simp
next
  case RecorderStopped
  assume ok: "posted_ok s"
  have "posted_ok (onstop s)"
    by (simp add: posted_ok_def onstop_def processAudio_def suspend_def emit_def
        posted_forms_append)
  with ok RecorderStopped show ?thesis by simp
next
  case (TimerFire i)
  assume ok: "posted_ok s"
  have "posted_ok (poll_tick t s)" for t
    by (rule posted_ok_same [OF ok])
       (simp_all add: poll_tick_def suspend_def emit_def conts_def posted_forms_append)
  with ok TimerFire show ?thesis by (simp split: option.split)
next
  case (Settle k r)
  assume ok: "posted_ok s"
  have sub: "conts (resume k s) \<subseteq> conts s" by (rule conts_resume)
  have c: "AfterPost \<in> conts (step (Settle k r) s) \<Longrightarrow> AfterPost \<in> conts s"
    using sub
    by (auto simp: conts_processAudio_resume conts_poll_on_progress
        split: option.splits cont.splits if_splits)
  show ?thesis unfolding Settle
    by (rule posted_ok_same [OF ok]) (erule c, rule step_Settle_same)
qed

lemma run_posted_ok: "posted_ok s \<Longrightarrow> posted_ok (run evs s)"
  by (induction evs arbitrary: s) (simp_all add: step_posted_ok)

lemma init_posted_ok: "posted_ok init"
  by (simp add: posted_ok_def init_def conts_def)

lemma upload_in_flight_was_posted:
  assumes "map_of (pending (run evs init)) k = Some AfterPost"
  shows "posted_forms (out (run evs init)) \<noteq> []"
proof -
  have "posted_ok (run evs init)" using init_posted_ok by (rule run_posted_ok)
  moreover from assms have "AfterPost \<in> conts (run evs init)" by (rule pending_in_conts)
  ultimately show ?thesis by (simp add: posted_ok_def)
qed

text \<open>
  C6: every upload is one POST of a form with the single part \<open>file\<close>, named
  \<open>recording.webm\<close>, whose blob holds the recorded bytes and declares the type
  \<open>audio/webm\<close>, and an upload that is awaiting its reply has been posted. When the
  reply to an upload carries the task id \<open>t\<close>, the client keeps
  \<open>t\<close> as its current task and sets an interval that holds \<open>t\<close>; every progress query and
  every result query made afterwards by the callbacks of that interval is for \<open>t\<close>,
  however the run goes on and whatever other task is polled meanwhile. And every query
  of the run carries a task id that the reply to some upload returned.
\<close>

theorem queries_of_a_job_carry_its_task_id:
  assumes "map_of (pending (run evs1 init)) k = Some AfterPost"
    and "get_prop body ''task_id'' = Some t"
  shows "posted_forms (out (run evs1 init)) \<noteq> [] \<and>
         currentTaskId (step (Settle k (Resolved body)) (run evs1 init)) = t \<and>
         map_of (intervals (step (Settle k (Resolved body)) (run evs1 init)))
           (next_id (run evs1 init)) = Some t \<and>
         set (job_queries (next_id (run evs1 init)) [] evs2
                (step (Settle k (Resolved body)) (run evs1 init))) \<subseteq> {t} \<and>
         set (query_ids (out (run (evs1 @ Settle k (Resolved body) # evs2) init)))
           \<subseteq> set (returned_ids (evs1 @ Settle k (Resolved body) # evs2) init) \<and>
         (\<forall>f\<in>set (posted_forms (out (run (evs1 @ Settle k (Resolved body) # evs2) init))).
            \<exists>b. f = [(''file'', b, ''recording.webm'')] \<and> blob_type b = ''audio/webm'')"
proof -
  let ?s1 = "run evs1 init"
  let ?s2 = "step (Settle k (Resolved body)) ?s1"
  let ?all = "evs1 @ Settle k (Resolved body) # evs2"
  have f1: "fresh ?s1" using init_fresh by (rule run_fresh)
  then have f2: "fresh ?s2" by (rule step_fresh)
  note up = upload_starts_job [OF f1 assms]
  have j: "set (job_queries (next_id ?s1) [] evs2 ?s2) \<subseteq> {t}"
    using f2 up(4) by (rule run_job_queries)
  have "ids_ok 0 ({} \<union> set (returned_ids ?all init)) (run ?all init)"
    using init_ids_ok by (rule run_ids_ok)
  then have q: "set (query_ids (out (run ?all init))) \<subseteq> set (returned_ids ?all init)"
    by (simp add: ids_ok_def)
  have "chunks_ok ({} \<union> set (delivered ?all)) (run ?all init)"
    using init_chunks_ok by (rule run_chunks_ok)
  then have p: "\<forall>f\<in>set (posted_forms (out (run ?all init))).
      \<exists>b. f = [(''file'', b, ''recording.webm'')] \<and> blob_type b = ''audio/webm''"
    by (auto simp: chunks_ok_def from_chunks_def new_Blob_def)
  have u: "posted_forms (out ?s1) \<noteq> []"
    using assms(1) by (rule upload_in_flight_was_posted)
  from u up(1,3) j q p show ?thesis by blast
qed

theorem queries_of_a_job_witness:
  "map_of (pending (run second_upload init)) 12 = Some AfterPost \<and>
   get_prop (JObj [(''task_id'', JStr ''t3'')]) ''task_id'' = Some (JStr ''t3'') \<and>
   next_id (run second_upload init) = 13 \<and>
   intervals (step (Settle 12 (Resolved (JObj [(''task_id'', JStr ''t3'')])))
                (run second_upload init))
     = [(9, JStr ''t2''), (13, JStr ''t3'')] \<and>
   query_ids (drop (length (out (run second_upload init)))
       (out (run both_jobs_poll
          (step (Settle 12 (Resolved (JObj [(''task_id'', JStr ''t3'')])))
             (run second_upload init)))))
     = [JStr ''t2'', JStr ''t3'', JStr ''t3''] \<and>
   job_queries 13 [] both_jobs_poll
       (step (Settle 12 (Resolved (JObj [(''task_id'', JStr ''t3'')])))
          (run second_upload init))
     = [JStr ''t3'', JStr ''t3''] \<and>
   set (job_queries 13 [] both_jobs_poll
       (step (Settle 12 (Resolved (JObj [(''task_id'', JStr ''t3'')])))
          (run second_upload init)))
     \<subseteq> {JStr ''t3''} \<and>
   posted_forms (out (run second_upload init))
     = [[(''file'', new_Blob [chunk1] ''audio/webm'', ''recording.webm'')],
        [(''file'', new_Blob [chunk1] ''audio/webm'', ''recording.webm'')],
        [(''file'', new_Blob [chunk1] ''audio/webm'', ''recording.webm'')]]"
proof -
  let ?b = "JObj [(''task_id'', JStr ''t3'')]"
  let ?s1 = "run second_upload init"
  let ?s2 = "step (Settle 12 (Resolved ?b)) ?s1"
  have h1: "map_of (pending ?s1) 12 = Some AfterPost" by (simp add: after_second_upload)
  have h2: "get_prop ?b ''task_id'' = Some (JStr ''t3'')" by (simp add: lookup_field_def)
  have n: "next_id ?s1 = 13" by (simp add: after_second_upload)
  have i: "intervals ?s2 = [(9, JStr ''t2''), (13, JStr ''t3'')]"
    unfolding after_third_task by simp
  have o: "query_ids (drop (length (out ?s1)) (out (run both_jobs_poll ?s2))) =
      [JStr ''t2'', JStr ''t3'', JStr ''t3'']"
    unfolding after_third_task
    by (simp add: both_jobs_poll_def after_second_upload after_stale_poll_run
        running_progress_def completed_progress_def eval_defs)
  have q: "job_queries 13 [] both_jobs_poll ?s2 = [JStr ''t3'', JStr ''t3'']"
    unfolding after_third_task
    by (simp add: both_jobs_poll_def after_second_upload after_stale_poll_run
        running_progress_def completed_progress_def new_out_def new_handles_def eval_defs)
  have p: "posted_forms (out ?s1)
     = [[(''file'', new_Blob [chunk1] ''audio/webm'', ''recording.webm'')],
        [(''file'', new_Blob [chunk1] ''audio/webm'', ''recording.webm'')],
        [(''file'', new_Blob [chunk1] ''audio/webm'', ''recording.webm'')]]"
    by (simp add: after_second_upload after_stale_poll_run after_two_polls_in_flight
        after_submit_t1 posted_forms_append)
  from queries_of_a_job_carry_its_task_id [OF h1 h2, of both_jobs_poll]
  have "set (job_queries (next_id ?s1) [] both_jobs_poll ?s2) \<subseteq> {JStr ''t3''}" by blast
  then have j: "set (job_queries 13 [] both_jobs_poll ?s2) \<subseteq> {JStr ''t3''}"
    unfolding n .
  from h1 h2 n i o q j p show ?thesis by blast
qed

subsection \<open>A task that ended in error\<close>







section \<open>The invariant of a task\<close>













lemma worker_ok_Nil [simp]: "worker_ok i to []"
  by (simp add: worker_ok_def)














section \<open>The fields the pages read\<close>

lemmas view_defs = render_progress_def render_current_stage_def render_stages_def
  render_stage_def opt_prop_def lookup_field_def toUpperCase_def upper_char_def
  render_result_def render_tab_def render_results_section_def show_seconds_def
  show_percent_def show_entities_def js_or_def handleProgressUpdate_def
  handleTranscriptionComplete_def home_init_def as_child_def

lemma opt_prop_JObj: "opt_prop (JObj kvs) k = lookup_field kvs k"
  by (simp add: opt_prop_def)

lemma lookup_field_Nil: "lookup_field [] k = JUndefined"
  by (simp add: lookup_field_def)

lemma lookup_field_Cons:
  "lookup_field ((k', v) # kvs) k = (if k = k' then v else lookup_field kvs k)"
  by (simp add: lookup_field_def)

lemma those_Some: "those xs = Some ys \<Longrightarrow> xs = map Some ys"
  by (induction xs arbitrary: ys) (auto split: option.splits)

lemma progress_frame:
  "render_progress (JObj kvs) =
   render_progress (JObj [(''overall_progress'', lookup_field kvs ''overall_progress''),
     (''current_stage'', lookup_field kvs ''current_stage''),
     (''stages'', lookup_field kvs ''stages'')])"
  unfolding render_progress_def opt_prop_JObj lookup_field_Cons lookup_field_Nil by simp

lemma stage_frame:
  "render_stage (JObj e) =
   render_stage (JObj [(''stage'', lookup_field e ''stage''),
     (''message'', lookup_field e ''message''), (''timestamp'', lookup_field e ''timestamp'')])"
  unfolding render_stage_def opt_prop_JObj get_prop.simps lookup_field_Cons lookup_field_Nil
  by simp

lemma rows_are_stages:
  assumes "lookup_field kvs ''stages'' = JArr es" and "render_progress (JObj kvs) = Shows v"
  shows "map render_stage es = map Some (pv_rows v)"
proof -
  from assms have "those (map render_stage es) = Some (pv_rows v)"
    by (auto simp: render_progress_def render_stages_def opt_prop_JObj
        split: option.splits if_splits)
  then show ?thesis by (rule those_Some)
qed

text \<open>
  C3, as stated, fails: the page reads the stage events from \<open>progress.stages\<close>. A
  progress body that carries them under \<open>stage_history\<close> is shown with its percentage
  and its current stage and without any stage row.
\<close>

theorem stage_history_is_not_rendered:
  "lookup_field spec_progress_fields ''stage_history'' = JArr [stage_entry] \<and>
   render_progress (progress (handleProgressUpdate (JObj spec_progress_fields) home_init))
     = Shows \<lparr>pv_percent = JNum 20, pv_label = Some ''CONVERTING AUDIO'', pv_rows = []\<rparr>"
  by (simp add: spec_progress_fields_def view_defs)

text \<open>
  C3, amended to the field the client reads: the progress panel is determined by the
  fields \<open>overall_progress\<close>, \<open>current_stage\<close> and \<open>stages\<close> of the body (\<open>status\<close> is
  read by the polling loop), a stage row by the fields \<open>stage\<close>, \<open>message\<close> and
  \<open>timestamp\<close> of its entry, and when \<open>stages\<close> is an array the rows shown are its
  entries, rendered one by one in order.
\<close>

theorem progress_panel_reads_stages:
  "render_progress (JObj kvs) =
     render_progress (JObj [(''overall_progress'', lookup_field kvs ''overall_progress''),
       (''current_stage'', lookup_field kvs ''current_stage''),
       (''stages'', lookup_field kvs ''stages'')]) \<and>
   render_stage (JObj e) =
     render_stage (JObj [(''stage'', lookup_field e ''stage''),
       (''message'', lookup_field e ''message''),
       (''timestamp'', lookup_field e ''timestamp'')]) \<and>
   (lookup_field kvs ''stages'' = JArr es \<and> render_progress (JObj kvs) = Shows v
      \<longrightarrow> map render_stage es = map Some (pv_rows v))"
  using progress_frame [of kvs] stage_frame [of e] rows_are_stages [of kvs es v] by blast

theorem progress_panel_reads_stages_witness:
  "lookup_field code_progress_fields ''stages'' = JArr [stage_entry] \<and>
   render_progress (JObj code_progress_fields) =
     Shows \<lparr>pv_percent = JNum 20, pv_label = Some ''CONVERTING AUDIO'',
            pv_rows = [\<lparr>row_icon = SpinnerIcon, row_title = ''converting audio'',
                        row_message = JStr ''Converting audio'',
                        row_time = JStr ''2024-05-01T10:00:00''\<rparr>]\<rparr> \<and>
   map render_stage [stage_entry] =
     map Some [\<lparr>row_icon = SpinnerIcon, row_title = ''converting audio'',
                row_message = JStr ''Converting audio'',
                row_time = JStr ''2024-05-01T10:00:00''\<rparr>]"
proof -
  let ?v = "\<lparr>pv_percent = JNum 20, pv_label = Some ''CONVERTING AUDIO'',
            pv_rows = [\<lparr>row_icon = SpinnerIcon, row_title = ''converting audio'',
                        row_message = JStr ''Converting audio'',
                        row_time = JStr ''2024-05-01T10:00:00''\<rparr>]\<rparr>"
  have h1: "lookup_field code_progress_fields ''stages'' = JArr [stage_entry]"
    by (simp add: code_progress_fields_def lookup_field_def)
  have h2: "render_progress (JObj code_progress_fields) = Shows ?v"
    by (simp add: code_progress_fields_def stage_entry_def view_defs)
  from progress_panel_reads_stages [of code_progress_fields "[]" "[stage_entry]" ?v] h1 h2
  have "map render_stage [stage_entry] = map Some (pv_rows ?v)" by blast
  with h1 h2 show ?thesis by simp
qed

lemma result_frame:
  "render_result tb (JObj kvs) =
   render_result tb (JObj [(''transcript'', lookup_field kvs ''transcript''),
     (''confidence'', lookup_field kvs ''confidence''),
     (''duration'', lookup_field kvs ''duration''),
     (''diagnoses'', lookup_field kvs ''diagnoses''),
     (''treatments'', lookup_field kvs ''treatments''),
     (''task_id'', lookup_field kvs ''task_id''),
     (''processing_time'', lookup_field kvs ''processing_time'')])"
  unfolding render_result_def render_tab_def opt_prop_JObj get_prop.simps lookup_field_Cons
    lookup_field_Nil
  by simp

lemma renderable_js_or: "renderable v \<Longrightarrow> renderable (js_or v (JStr d))"
  by (simp add: js_or_def)

lemma unrenderable_js_or: "\<not> renderable v \<Longrightarrow> js_or v d = v"
  by (cases v) (simp_all add: js_or_def)

lemma transcript_tab_shows:
  assumes "renderable (lookup_field kvs ''transcript'')"
    and "lookup_field kvs ''duration'' = JNum x" and "x \<noteq> 0"
    and "renderable (lookup_field kvs ''task_id'')"
    and "lookup_field kvs ''processing_time'' = JNum y" and "y \<noteq> 0"
  shows "render_result TranscriptTab (JObj kvs) =
     Some \<lparr>rv_body = TranscriptBody
              (Val (js_or (lookup_field kvs ''transcript'') (JStr ''No transcript available'')))
              (show_percent (lookup_field kvs ''confidence''))
              (FixedS 1 x),
           rv_task_id = Val (js_or (lookup_field kvs ''task_id'') (JStr ''N/A'')),
           rv_processing_time = FixedS 2 y\<rparr>"
  using assms
  by (simp add: render_result_def render_tab_def opt_prop_JObj show_seconds_def as_child_def
      renderable_js_or)

lemma entities_tab_shows:
  assumes "lookup_field kvs ''diagnoses'' = JArr (map JStr ds)" and "ds \<noteq> []"
    and "lookup_field kvs ''treatments'' = JArr (map JStr ts)" and "ts \<noteq> []"
    and "renderable (lookup_field kvs ''task_id'')"
    and "lookup_field kvs ''processing_time'' = JNum y" and "y \<noteq> 0"
  shows "render_result EntitiesTab (JObj kvs) =
     Some \<lparr>rv_body = EntitiesBody (Chips (map JStr ds)) (Chips (map JStr ts)),
           rv_task_id = Val (js_or (lookup_field kvs ''task_id'') (JStr ''N/A'')),
           rv_processing_time = FixedS 2 y\<rparr>"
proof -
  have r: "list_all renderable (map JStr zs)" for zs by (induction zs) simp_all
  from assms show ?thesis
    by (simp add: render_result_def render_tab_def opt_prop_JObj show_seconds_def as_child_def
        renderable_js_or show_entities_def r)
qed

lemma object_transcript_throws:
  assumes "\<not> renderable (lookup_field kvs ''transcript'')"
  shows "render_result TranscriptTab (JObj kvs) = None"
  using assms
  by (simp add: render_result_def render_tab_def opt_prop_JObj as_child_def unrenderable_js_or)

lemma object_task_id_throws:
  assumes "\<not> renderable (lookup_field kvs ''task_id'')"
  shows "render_result tb (JObj kvs) = None"
  using assms
  by (simp add: render_result_def opt_prop_JObj as_child_def unrenderable_js_or
      split: option.splits)

text \<open>
  C4, as stated, fails: the component reads \<open>result.duration\<close> and
  \<open>result.processing_time\<close>. A result body that carries the two values under
  \<open>duration_seconds\<close> and \<open>processing_time_seconds\<close> is shown with \<open>N/A\<close> for both.
\<close>

theorem duration_seconds_is_not_read:
  "lookup_field spec_payload_fields ''duration_seconds'' = JNum 3 \<and>
   lookup_field spec_payload_fields ''processing_time_seconds'' = JNum (3 / 2) \<and>
   render_results_section TranscriptTab
       (transcriptionResult (handleTranscriptionComplete (JObj spec_payload_fields) home_init))
     = Shows \<lparr>rv_body = TranscriptBody (Val (JStr ''otitis externa''))
                           (Percent1 (JNum (9 / 10))) (Lit ''N/A''),
              rv_task_id = Val (JStr ''t1''), rv_processing_time = Lit ''N/A''\<rparr>"
  by (simp add: spec_payload_fields_def view_defs)

text \<open>
  C4, amended to the fields the client reads: what TranscriptionResult shows is
  determined by the fields \<open>transcript\<close>, \<open>confidence\<close>, \<open>duration\<close>, \<open>diagnoses\<close>,
  \<open>treatments\<close>, \<open>task_id\<close> and \<open>processing_time\<close> of the body. With a transcript and a
  task id that can be put on the page, the transcript tab shows the transcript, the
  confidence, and the audio duration taken from \<open>duration\<close>, and the footer the task id
  and the pipeline timing taken from \<open>processing_time\<close>; the two times, when they are
  numbers other than zero, are shown with one and with two decimals. The entities tab
  shows the elements of \<open>diagnoses\<close> and of \<open>treatments\<close>, in order, when they are
  non-empty lists of strings. A transcript or a task id that is an object is not
  shown: rendering throws.
\<close>

theorem result_view_reads_the_fields_of_the_client:
  "render_result tb (JObj kvs) =
     render_result tb (JObj [(''transcript'', lookup_field kvs ''transcript''),
       (''confidence'', lookup_field kvs ''confidence''),
       (''duration'', lookup_field kvs ''duration''),
       (''diagnoses'', lookup_field kvs ''diagnoses''),
       (''treatments'', lookup_field kvs ''treatments''),
       (''task_id'', lookup_field kvs ''task_id''),
       (''processing_time'', lookup_field kvs ''processing_time'')]) \<and>
   (renderable (lookup_field kvs ''transcript'') \<and>
    lookup_field kvs ''duration'' = JNum x \<and> x \<noteq> 0 \<and>
    renderable (lookup_field kvs ''task_id'') \<and>
    lookup_field kvs ''processing_time'' = JNum y \<and> y \<noteq> 0
      \<longrightarrow> render_result TranscriptTab (JObj kvs) =
            Some \<lparr>rv_body = TranscriptBody
                     (Val (js_or (lookup_field kvs ''transcript'')
                                 (JStr ''No transcript available'')))
                     (show_percent (lookup_field kvs ''confidence''))
                     (FixedS 1 x),
                  rv_task_id = Val (js_or (lookup_field kvs ''task_id'') (JStr ''N/A'')),
                  rv_processing_time = FixedS 2 y\<rparr>) \<and>
   (lookup_field kvs ''diagnoses'' = JArr (map JStr ds) \<and> ds \<noteq> [] \<and>
    lookup_field kvs ''treatments'' = JArr (map JStr ts) \<and> ts \<noteq> [] \<and>
    renderable (lookup_field kvs ''task_id'') \<and>
    lookup_field kvs ''processing_time'' = JNum y \<and> y \<noteq> 0
      \<longrightarrow> render_result EntitiesTab (JObj kvs) =
            Some \<lparr>rv_body = EntitiesBody (Chips (map JStr ds)) (Chips (map JStr ts)),
                  rv_task_id = Val (js_or (lookup_field kvs ''task_id'') (JStr ''N/A'')),
                  rv_processing_time = FixedS 2 y\<rparr>) \<and>
   (\<not> renderable (lookup_field kvs ''transcript'')
      \<longrightarrow> render_result TranscriptTab (JObj kvs) = None) \<and>
   (\<not> renderable (lookup_field kvs ''task_id'') \<longrightarrow> render_result tb (JObj kvs) = None)"
  using result_frame [of tb kvs] transcript_tab_shows [of kvs x y]
    entities_tab_shows [of kvs ds ts y] object_transcript_throws [of kvs]
    object_task_id_throws [of kvs tb]
  by blast

theorem result_view_reads_the_fields_witness:
  "render_result TranscriptTab (JObj code_payload_fields) =
     Some \<lparr>rv_body = TranscriptBody (Val (JStr ''otitis externa''))
                        (Percent1 (JNum (9 / 10))) (FixedS 1 3),
           rv_task_id = Val (JStr ''t1''), rv_processing_time = FixedS 2 (3 / 2)\<rparr> \<and>
   render_result EntitiesTab (JObj code_payload_fields) =
     Some \<lparr>rv_body = EntitiesBody (Chips [JStr ''otitis externa'']) (Chips [JStr ''ear drops'']),
           rv_task_id = Val (JStr ''t1''), rv_processing_time = FixedS 2 (3 / 2)\<rparr> \<and>
   render_result SecurityTab (JObj code_payload_fields) =
     Some \<lparr>rv_body = SecurityBody, rv_task_id = Val (JStr ''t1''),
           rv_processing_time = FixedS 2 (3 / 2)\<rparr> \<and>
   render_result TranscriptTab (JObj object_payload_fields) = None"
proof -
  let ?k = code_payload_fields
  have l: "lookup_field ?k ''transcript'' = JStr ''otitis externa''"
    "lookup_field ?k ''confidence'' = JNum (9 / 10)"
    "lookup_field ?k ''duration'' = JNum 3"
    "lookup_field ?k ''diagnoses'' = JArr (map JStr [''otitis externa''])"
    "lookup_field ?k ''treatments'' = JArr (map JStr [''ear drops''])"
    "lookup_field ?k ''task_id'' = JStr ''t1''"
    "lookup_field ?k ''processing_time'' = JNum (3 / 2)"
    by (simp_all add: code_payload_fields_def lookup_field_def)
  have o: "\<not> renderable (lookup_field object_payload_fields ''transcript'')"
    by (simp add: object_payload_fields_def lookup_field_def)
  have n: "(3::real) \<noteq> 0" "(3 / 2 :: real) \<noteq> 0" by simp_all
  have r: "renderable (lookup_field ?k ''transcript'')"
    "renderable (lookup_field ?k ''task_id'')"
    by (simp_all add: l)
  have e: "[''otitis externa''] \<noteq> []" "[''ear drops''] \<noteq> []" by simp_all
  have j: "js_or (JStr ''otitis externa'') (JStr ''No transcript available'')
      = JStr ''otitis externa''"
    "js_or (JStr ''t1'') (JStr ''N/A'') = JStr ''t1''"
    "show_percent (JNum (9 / 10)) = Percent1 (JNum (9 / 10))"
    "map JStr [''otitis externa''] = [JStr ''otitis externa'']"
    "map JStr [''ear drops''] = [JStr ''ear drops'']"
    by (simp_all add: js_or_def show_percent_def)
  note t = result_view_reads_the_fields_of_the_client
    [of TranscriptTab ?k 3 "3 / 2" "[''otitis externa'']" "[''ear drops'']"]
  note u = result_view_reads_the_fields_of_the_client
    [of TranscriptTab object_payload_fields 3 "3 / 2" "[]" "[]"]
  from t r l(3,7) n have a: "render_result TranscriptTab (JObj ?k) =
     Some \<lparr>rv_body = TranscriptBody
              (Val (js_or (lookup_field ?k ''transcript'') (JStr ''No transcript available'')))
              (show_percent (lookup_field ?k ''confidence''))
              (FixedS 1 3),
           rv_task_id = Val (js_or (lookup_field ?k ''task_id'') (JStr ''N/A'')),
           rv_processing_time = FixedS 2 (3 / 2)\<rparr>"
    by blast
  from t r l(4,5,7) n e have b: "render_result EntitiesTab (JObj ?k) =
     Some \<lparr>rv_body = EntitiesBody (Chips (map JStr [''otitis externa'']))
                        (Chips (map JStr [''ear drops''])),
           rv_task_id = Val (js_or (lookup_field ?k ''task_id'') (JStr ''N/A'')),
           rv_processing_time = FixedS 2 (3 / 2)\<rparr>"
    by blast
  from u o have c: "render_result TranscriptTab (JObj object_payload_fields) = None"
    by blast
  have d: "render_result SecurityTab (JObj ?k) =
     Some \<lparr>rv_body = SecurityBody, rv_task_id = Val (JStr ''t1''),
           rv_processing_time = FixedS 2 (3 / 2)\<rparr>"
    by (simp add: code_payload_fields_def view_defs)
  from a b c d show ?thesis unfolding l(1,2,6) j by blast
qed

end
